theory Spec2Isabelle
  imports Main
begin

section \<open>The state of \<open>PackageAnalyzer\<close>\<close>

text \<open>
  The development embeds the graph engine of \<^verbatim>\<open>src/fifth step/package_analyzer.py\<close>:
  \<^verbatim>\<open>build_dependency_graph_bfs\<close>, \<^verbatim>\<open>calculate_load_order\<close>,
  \<^verbatim>\<open>generate_graphviz_dot\<close> and \<^verbatim>\<open>print_ascii_tree\<close>.

  \<^item> A package identifier and a version constraint are Python strings; here \<open>string\<close>,
    a list of 8-bit characters holding the UTF-8 encoding of the text.
  \<^item> \<^verbatim>\<open>self.dependency_graph\<close> is a \<^verbatim>\<open>defaultdict(list)\<close>. A Python dict
    iterates in insertion order, so it is an association list in insertion order, each
    key bound to its list of \<open>(dep_package, version)\<close> pairs.
  \<^item> \<^verbatim>\<open>self.all_packages\<close> is a Python \<^verbatim>\<open>set\<close>: a \<open>string set\<close>. The order in
    which Python iterates a set of strings is fixed by the hash table, not by the
    program, so every function that iterates the set takes that order as a list
    \<open>all_nodes\<close>, and the theorems hold for every enumeration of the set.
  \<^item> Every \<^verbatim>\<open>print\<close> appends its text to \<open>printed\<close>.
  \<^item> The fields \<^verbatim>\<open>dependencies\<close> and \<^verbatim>\<open>visited\<close> of the class are initialised and
    never read or written again; they are left out.
\<close>

type_synonym graph = "(string \<times> (string \<times> string) list) list"

record analyzer =
  dependency_graph :: graph
  cycle_detected :: bool
  load_order :: "string list"
  all_packages :: "string set"
  printed :: "string list"

definition PackageAnalyzer_init :: analyzer where
  "PackageAnalyzer_init =
     \<lparr>dependency_graph = [], cycle_detected = False, load_order = [],
      all_packages = {}, printed = []\<rparr>"

text \<open>\<^verbatim>\<open>self.dependency_graph.get(k, [])\<close>: a lookup that creates no entry.\<close>

definition graph_get :: "graph \<Rightarrow> string \<Rightarrow> (string \<times> string) list" where
  "graph_get g k = (case map_of g k of None \<Rightarrow> [] | Some deps \<Rightarrow> deps)"

text \<open>
  \<^verbatim>\<open>self.dependency_graph[k].append(e)\<close>: the entry of an existing key grows in place;
  a missing key is created at the end of the dict with the one-element list.
\<close>

fun graph_append :: "graph \<Rightarrow> string \<Rightarrow> string \<times> string \<Rightarrow> graph" where
  "graph_append [] k e = [(k, [e])]"
| "graph_append ((k', deps) # g) k e =
     (if k' = k then (k', deps @ [e]) # g else (k', deps) # graph_append g k e)"

section \<open>The dependency source\<close>

text \<open>
  \<^verbatim>\<open>get_direct_dependencies\<close> reads either the fixture file (\<^verbatim>\<open>--test-repo\<close>) or the
  registry. Both are outside the program, so they are parameters: the fixture is the
  result of \<^verbatim>\<open>load_test_repository\<close> (the decoded JSON object, or the message of the
  exception it raises), the registry is the composition of \<^verbatim>\<open>fetch_package_info\<close> and
  \<^verbatim>\<open>extract_dependencies\<close> as a function of the package name. An exception is \<open>Inl\<close> of
  its message. The result is the returned dict in insertion order.

  In fixture mode the dict comprehension \<^verbatim>\<open>{dep: "*" for dep in dependencies}\<close> keeps each
  name once, at the place of its first occurrence: \<open>rev (remdups (rev dependencies))\<close>
  (\<open>remdups\<close> alone keeps the last occurrence).
\<close>

datatype source =
  TestRepo "string + (string \<rightharpoonup> string list)"
| Registry "string \<Rightarrow> string + (string \<times> string) list"

definition get_direct_dependencies :: "source \<Rightarrow> string \<Rightarrow> string + (string \<times> string) list" where
  "get_direct_dependencies src package_name =
     (case src of
        TestRepo file \<Rightarrow>
          (case file of
             Inl e \<Rightarrow> Inl e
           | Inr test_data \<Rightarrow>
               (let dependencies = (case test_data package_name of None \<Rightarrow> [] | Some ds \<Rightarrow> ds)
                in Inr (if dependencies \<noteq> []
                        then map (\<lambda>dep. (dep, ''*'')) (rev (remdups (rev dependencies)))
                        else [])))
      | Registry fetch \<Rightarrow> fetch package_name)"

section \<open>Printed text\<close>

text \<open>
  The literal texts of the program that are not ASCII are given by their UTF-8 bytes.
  \<open>cycle_warning\<close> is the warning sign followed by the Russian for
  "cyclic dependency detected: ", \<open>error_warning\<close> the warning sign followed by
  "error while processing package ".
\<close>

definition cycle_warning :: string where
  \<open>cycle_warning =
     [CHR 0xE2, CHR 0x9A, CHR 0xA0, CHR 0xEF, CHR 0xB8, CHR 0x8F, CHR 0x20, CHR 0x20, CHR 0xD0,
     CHR 0x9E, CHR 0xD0, CHR 0xB1, CHR 0xD0, CHR 0xBD, CHR 0xD0, CHR 0xB0, CHR 0xD1, CHR 0x80,
     CHR 0xD1, CHR 0x83, CHR 0xD0, CHR 0xB6, CHR 0xD0, CHR 0xB5, CHR 0xD0, CHR 0xBD, CHR 0xD0,
     CHR 0xB0, CHR 0x20, CHR 0xD1, CHR 0x86, CHR 0xD0, CHR 0xB8, CHR 0xD0, CHR 0xBA, CHR 0xD0,
     CHR 0xBB, CHR 0xD0, CHR 0xB8, CHR 0xD1, CHR 0x87, CHR 0xD0, CHR 0xB5, CHR 0xD1, CHR 0x81,
     CHR 0xD0, CHR 0xBA, CHR 0xD0, CHR 0xB0, CHR 0xD1, CHR 0x8F, CHR 0x20, CHR 0xD0, CHR 0xB7,
     CHR 0xD0, CHR 0xB0, CHR 0xD0, CHR 0xB2, CHR 0xD0, CHR 0xB8, CHR 0xD1, CHR 0x81, CHR 0xD0,
     CHR 0xB8, CHR 0xD0, CHR 0xBC, CHR 0xD0, CHR 0xBE, CHR 0xD1, CHR 0x81, CHR 0xD1, CHR 0x82,
     CHR 0xD1, CHR 0x8C] @ '': ''\<close>

definition error_warning :: string where
  \<open>error_warning =
     [CHR 0xE2, CHR 0x9A, CHR 0xA0, CHR 0xEF, CHR 0xB8, CHR 0x8F, CHR 0x20, CHR 0x20, CHR 0xD0,
     CHR 0x9E, CHR 0xD1, CHR 0x88, CHR 0xD0, CHR 0xB8, CHR 0xD0, CHR 0xB1, CHR 0xD0, CHR 0xBA,
     CHR 0xD0, CHR 0xB0, CHR 0x20, CHR 0xD0, CHR 0xBF, CHR 0xD1, CHR 0x80, CHR 0xD0, CHR 0xB8,
     CHR 0x20, CHR 0xD0, CHR 0xBE, CHR 0xD0, CHR 0xB1, CHR 0xD1, CHR 0x80, CHR 0xD0, CHR 0xB0,
     CHR 0xD0, CHR 0xB1, CHR 0xD0, CHR 0xBE, CHR 0xD1, CHR 0x82, CHR 0xD0, CHR 0xBA, CHR 0xD0,
     CHR 0xB5, CHR 0x20, CHR 0xD0, CHR 0xBF, CHR 0xD0, CHR 0xB0, CHR 0xD0, CHR 0xBA, CHR 0xD0,
     CHR 0xB5, CHR 0xD1, CHR 0x82, CHR 0xD0, CHR 0xB0] @ '' ''\<close>

text \<open>\<^verbatim>\<open>sep.join(xs)\<close>.\<close>

fun join :: "string \<Rightarrow> string list \<Rightarrow> string" where
  "join sep [] = []"
| "join sep [x] = x"
| "join sep (x # y # ys) = x @ sep @ join sep (y # ys)"

text \<open>\<^verbatim>\<open>str(n)\<close> of a Python int, as the f-strings print it.\<close>

fun str_nat :: "nat \<Rightarrow> string" where
  "str_nat n =
     (if n < 10 then [''0123456789'' ! n]
      else str_nat (n div 10) @ [''0123456789'' ! (n mod 10)])"

definition str_int :: "int \<Rightarrow> string" where
  "str_int i = (if i < 0 then ''-'' @ str_nat (nat (- i)) else str_nat (nat i))"

section \<open>The graph builder\<close>

text \<open>
  \<^verbatim>\<open>build_dependency_graph_bfs(start_package, current_depth=0, path=None)\<close>, with
  \<^verbatim>\<open>self.args.max_depth\<close> and the source as parameters. The order of the source is kept:
  the depth guard, then the path guard, then the expansion inside \<^verbatim>\<open>try\<close>. The body of
  the \<^verbatim>\<open>for\<close> loop over \<^verbatim>\<open>dependencies.items()\<close> is \<open>expand_dependencies\<close>: it appends the
  edge, adds the target to \<^verbatim>\<open>all_packages\<close> and only then makes the recursive call.
  The \<^verbatim>\<open>except Exception\<close> clause catches what \<^verbatim>\<open>get_direct_dependencies\<close> raises and
  prints it; nothing else in the \<^verbatim>\<open>try\<close> block raises, since every recursive call
  catches its own failures.
\<close>

function build_dependency_graph_bfs ::
    "source \<Rightarrow> int \<Rightarrow> string \<Rightarrow> int \<Rightarrow> string list \<Rightarrow> analyzer \<Rightarrow> analyzer"
  and expand_dependencies ::
    "source \<Rightarrow> int \<Rightarrow> string \<Rightarrow> int \<Rightarrow> string list \<Rightarrow> (string \<times> string) list \<Rightarrow>
     analyzer \<Rightarrow> analyzer"
where
  "build_dependency_graph_bfs src max_depth start_package current_depth path s =
     (if current_depth \<ge> max_depth then s
      else if start_package \<in> set path then
        s\<lparr>printed := printed s @ [cycle_warning @ join '' -> '' (path @ [start_package])],
          cycle_detected := True\<rparr>
      else
        (case get_direct_dependencies src start_package of
           Inr dependencies \<Rightarrow>
             expand_dependencies src max_depth start_package current_depth
               (path @ [start_package]) dependencies
               (s\<lparr>all_packages := insert start_package (all_packages s)\<rparr>)
         | Inl e \<Rightarrow>
             s\<lparr>all_packages := insert start_package (all_packages s),
               printed := printed s @ [error_warning @ start_package @ '': '' @ e]\<rparr>))"
| "expand_dependencies src max_depth start_package current_depth current_path [] s = s"
| "expand_dependencies src max_depth start_package current_depth current_path
       ((dep_package, version) # rest) s =
     expand_dependencies src max_depth start_package current_depth current_path rest
       (build_dependency_graph_bfs src max_depth dep_package (current_depth + 1) current_path
          (s\<lparr>dependency_graph :=
               graph_append (dependency_graph s) start_package (dep_package, version),
             all_packages := insert dep_package (all_packages s)\<rparr>))"
  by pat_completeness auto
termination
  by (relation "measures
        [\<lambda>x. case x of
               Inl (src, md, p, d, path, s) \<Rightarrow> 2 * nat (md - d)
             | Inr (src, md, p, d, cp, deps, s) \<Rightarrow> 2 * nat (md - (d + 1)) + 1,
         \<lambda>x. case x of
               Inl (src, md, p, d, path, s) \<Rightarrow> 0
             | Inr (src, md, p, d, cp, deps, s) \<Rightarrow> length deps]") auto

text \<open>
  The edges the builder records, each with the traversal path of the call that records
  it: the same recursion as \<open>build_dependency_graph_bfs\<close>, returning for every
  \<^verbatim>\<open>append\<close> the tuple \<open>(current_path, start_package, dep_package, version)\<close> instead of
  changing the state. \<open>builder_graph_get_both\<close> below proves that the stored graph holds
  exactly these edges, in this order.
\<close>

function recorded_edges ::
    "source \<Rightarrow> int \<Rightarrow> string \<Rightarrow> int \<Rightarrow> string list \<Rightarrow>
     (string list \<times> string \<times> string \<times> string) list"
  and recorded_by_loop ::
    "source \<Rightarrow> int \<Rightarrow> string \<Rightarrow> int \<Rightarrow> string list \<Rightarrow> (string \<times> string) list \<Rightarrow>
     (string list \<times> string \<times> string \<times> string) list"
where
  "recorded_edges src max_depth start_package current_depth path =
     (if current_depth \<ge> max_depth then []
      else if start_package \<in> set path then []
      else
        (case get_direct_dependencies src start_package of
           Inr dependencies \<Rightarrow>
             recorded_by_loop src max_depth start_package current_depth
               (path @ [start_package]) dependencies
         | Inl e \<Rightarrow> []))"
| "recorded_by_loop src max_depth start_package current_depth current_path [] = []"
| "recorded_by_loop src max_depth start_package current_depth current_path
       ((dep_package, version) # rest) =
     (current_path, start_package, dep_package, version) #
     recorded_edges src max_depth dep_package (current_depth + 1) current_path @
     recorded_by_loop src max_depth start_package current_depth current_path rest"
  by pat_completeness auto
termination
  by (relation "measures
        [\<lambda>x. case x of
               Inl (src, md, p, d, path) \<Rightarrow> 2 * nat (md - d)
             | Inr (src, md, p, d, cp, deps) \<Rightarrow> 2 * nat (md - (d + 1)) + 1,
         \<lambda>x. case x of
               Inl (src, md, p, d, path) \<Rightarrow> 0
             | Inr (src, md, p, d, cp, deps) \<Rightarrow> length deps]") auto

definition edges_of :: "string \<Rightarrow> (string list \<times> string \<times> string \<times> string) list \<Rightarrow> (string \<times> string) list" where
  "edges_of k rs = map (\<lambda>(cp, p, d, v). (d, v)) (filter (\<lambda>(cp, p, d, v). p = k) rs)"

section \<open>The load-order resolver\<close>

text \<open>
  \<^verbatim>\<open>in_degree\<close> is a \<^verbatim>\<open>defaultdict(int)\<close>: a finite map, where reading a missing key
  gives 0 (\<open>dd_get\<close>) and \<^verbatim>\<open>in_degree[k] += d\<close> is \<open>dd_add\<close>.
\<close>

type_synonym in_degree = "string \<rightharpoonup> int"

definition dd_get :: "in_degree \<Rightarrow> string \<Rightarrow> int" where
  "dd_get m k = (case m k of None \<Rightarrow> 0 | Some c \<Rightarrow> c)"

definition dd_add :: "in_degree \<Rightarrow> string \<Rightarrow> int \<Rightarrow> in_degree" where
  "dd_add m k d = m(k \<mapsto> dd_get m k + d)"

text \<open>The counting loops: \<^verbatim>\<open>for node, deps in ...items(): for dep, _ in deps: in_degree[dep] += 1\<close>.\<close>

fun count_deps :: "(string \<times> string) list \<Rightarrow> in_degree \<Rightarrow> in_degree" where
  "count_deps [] m = m"
| "count_deps ((dep, v) # deps) m = count_deps deps (dd_add m dep 1)"

fun count_items :: "graph \<Rightarrow> in_degree \<Rightarrow> in_degree" where
  "count_items [] m = m"
| "count_items ((node, deps) # g) m = count_items g (count_deps deps m)"

text \<open>\<^verbatim>\<open>for node in all_nodes: if node not in in_degree: in_degree[node] = 0\<close>.\<close>

fun zero_missing :: "string list \<Rightarrow> in_degree \<Rightarrow> in_degree" where
  "zero_missing [] m = m"
| "zero_missing (node # ns) m =
     zero_missing ns (if m node = None then m(node \<mapsto> 0) else m)"

text \<open>
  The inner loop of the \<^verbatim>\<open>while\<close>: every neighbour of \<open>current\<close> loses one in-degree and
  joins the queue when its in-degree is then exactly 0.
\<close>

fun relax ::
  "(string \<times> string) list \<Rightarrow> in_degree \<times> string list \<Rightarrow> in_degree \<times> string list" where
  "relax [] (deg, queue) = (deg, queue)"
| "relax ((neighbor, v) # rest) (deg, queue) =
     relax rest (dd_add deg neighbor (- 1),
       if dd_get (dd_add deg neighbor (- 1)) neighbor = 0 then queue @ [neighbor] else queue)"

text \<open>
  The \<^verbatim>\<open>while queue:\<close> loop, returning the final \<^verbatim>\<open>in_degree\<close> with the order. It
  terminates on every input: the length of the queue plus the sum of the positive
  in-degrees of the edge targets of the graph decreases with every \<^verbatim>\<open>popleft\<close>.
\<close>

definition targets :: "graph \<Rightarrow> string set" where
  "targets g = (\<Union>(k, deps) \<in> set g. fst ` set deps)"

definition pending :: "graph \<Rightarrow> in_degree \<Rightarrow> nat" where
  "pending g deg = (\<Sum>n \<in> targets g. nat (dd_get deg n))"

function kahn_loop ::
  "graph \<Rightarrow> in_degree \<Rightarrow> string list \<Rightarrow> string list \<Rightarrow> in_degree \<times> string list" where
  "kahn_loop g deg [] order = (deg, order)"
| "kahn_loop g deg (current # queue) order =
     (case relax (graph_get g current) (deg, queue) of
        (deg', queue') \<Rightarrow> kahn_loop g deg' queue' (order @ [current]))"
  by pat_completeness auto

lemma finite_targets: "finite (targets g)"
  by (auto simp: targets_def)

lemma graph_get_targets: "fst ` set (graph_get g k) \<subseteq> targets g"
proof
  fix n assume "n \<in> fst ` set (graph_get g k)"
  then obtain v where nv: "(n, v) \<in> set (graph_get g k)" by auto
  then obtain deps where "map_of g k = Some deps" and "(n, v) \<in> set deps"
    by (cases "map_of g k") (auto simp: graph_get_def)
  then have "(k, deps) \<in> set g" and "n \<in> fst ` set deps"
    by (auto dest: map_of_SomeD intro: rev_image_eqI)
  then show "n \<in> targets g" unfolding targets_def by blast
qed

lemma relax_measure:
  "fst ` set es \<subseteq> T \<Longrightarrow> finite T \<Longrightarrow> relax es (deg, q) = (deg', q') \<Longrightarrow>
   length q' + (\<Sum>n\<in>T. nat (dd_get deg' n)) \<le> length q + (\<Sum>n\<in>T. nat (dd_get deg n))"
proof (induction es arbitrary: deg q)
  case Nil
  then show ?case by simp
next
  case (Cons e es)
  obtain nb v where e: "e = (nb, v)" by (cases e)
  let ?d = "dd_add deg nb (- 1)"
  let ?q = "if dd_get ?d nb = 0 then q @ [nb] else q"
  from Cons.prems e have nb: "nb \<in> T" by auto
  have rest: "relax es (?d, ?q) = (deg', q')" using Cons.prems(3) e by simp
  have ih: "length q' + (\<Sum>n\<in>T. nat (dd_get deg' n))
      \<le> length ?q + (\<Sum>n\<in>T. nat (dd_get ?d n))"
    using Cons.IH[OF _ Cons.prems(2) rest] Cons.prems(1) by simp
  have other: "(\<Sum>n\<in>T - {nb}. nat (dd_get ?d n)) = (\<Sum>n\<in>T - {nb}. nat (dd_get deg n))"
    by (rule sum.cong) (auto simp: dd_get_def dd_add_def)
  have s1: "(\<Sum>n\<in>T. nat (dd_get ?d n))
      = nat (dd_get ?d nb) + (\<Sum>n\<in>T - {nb}. nat (dd_get deg n))"
    using sum.remove[OF Cons.prems(2) nb, of "\<lambda>n. nat (dd_get ?d n)"] other by simp
  have s2: "(\<Sum>n\<in>T. nat (dd_get deg n))
      = nat (dd_get deg nb) + (\<Sum>n\<in>T - {nb}. nat (dd_get deg n))"
    using sum.remove[OF Cons.prems(2) nb, of "\<lambda>n. nat (dd_get deg n)"] by simp
  have val: "dd_get ?d nb = dd_get deg nb - 1" by (simp add: dd_get_def dd_add_def)
  have "length ?q + nat (dd_get ?d nb) \<le> length q + nat (dd_get deg nb)"
    using val by auto
  with ih s1 s2 show ?case by linarith
qed

termination kahn_loop
  apply (relation "measure (\<lambda>(g, deg, queue, order). length queue + pending g deg)")
   apply simp
  apply (simp add: pending_def)
  apply (drule sym)
  apply (drule relax_measure[OF graph_get_targets finite_targets])
  apply simp
  done

text \<open>
  \<^verbatim>\<open>calculate_load_order(start_package)\<close>. \<open>all_nodes\<close> enumerates \<^verbatim>\<open>self.all_packages\<close>
  in the order Python iterates the set. The method prints nothing, stores the order
  in \<^verbatim>\<open>self.load_order\<close> and returns it: the returned sequence is the \<open>load_order\<close>
  field of the result. \<open>residual_in_degree\<close> is the local \<^verbatim>\<open>in_degree\<close> as the loop
  leaves it.
\<close>

definition initial_in_degree :: "string list \<Rightarrow> graph \<Rightarrow> in_degree" where
  "initial_in_degree all_nodes g = zero_missing all_nodes (count_items g Map.empty)"

definition calculate_load_order :: "string list \<Rightarrow> analyzer \<Rightarrow> string \<Rightarrow> analyzer" where
  "calculate_load_order all_nodes s start_package =
     (let in_degree = initial_in_degree all_nodes (dependency_graph s);
          queue = filter (\<lambda>node. dd_get in_degree node = 0) all_nodes
      in s\<lparr>load_order := snd (kahn_loop (dependency_graph s) in_degree queue [])\<rparr>)"

definition residual_in_degree :: "string list \<Rightarrow> analyzer \<Rightarrow> in_degree" where
  "residual_in_degree all_nodes s =
     (let in_degree = initial_in_degree all_nodes (dependency_graph s);
          queue = filter (\<lambda>node. dd_get in_degree node = 0) all_nodes
      in fst (kahn_loop (dependency_graph s) in_degree queue []))"

section \<open>The tree renderer\<close>

text \<open>
  \<open>tree_banner\<close> is a newline, the tree emoji and the Russian for
  " ASCII dependency tree for: "; the connectors and the bar are the box-drawing
  characters of the source followed by spaces.
\<close>

definition tree_banner :: string where
  \<open>tree_banner =
     [CHR 0x0A, CHR 0xF0, CHR 0x9F, CHR 0x8C, CHR 0xB3] @ '' ASCII-'' @ [CHR 0xD0, CHR 0x94,
     CHR 0xD0, CHR 0x95, CHR 0xD0, CHR 0xA0, CHR 0xD0, CHR 0x95, CHR 0xD0, CHR 0x92, CHR 0xD0,
     CHR 0x9E, CHR 0x20, CHR 0xD0, CHR 0x97, CHR 0xD0, CHR 0x90, CHR 0xD0, CHR 0x92, CHR 0xD0,
     CHR 0x98, CHR 0xD0, CHR 0xA1, CHR 0xD0, CHR 0x98, CHR 0xD0, CHR 0x9C, CHR 0xD0, CHR 0x9E,
     CHR 0xD0, CHR 0xA1, CHR 0xD0, CHR 0xA2, CHR 0xD0, CHR 0x95, CHR 0xD0, CHR 0x99, CHR 0x20,
     CHR 0xD0, CHR 0x94, CHR 0xD0, CHR 0x9B, CHR 0xD0, CHR 0xAF] @ '': ''\<close>

definition connector_last :: string where
  \<open>connector_last =
     [CHR 0xE2, CHR 0x94, CHR 0x94, CHR 0xE2, CHR 0x94, CHR 0x80, CHR 0xE2, CHR 0x94, CHR 0x80]
     @ '' ''\<close>

definition connector_mid :: string where
  \<open>connector_mid =
     [CHR 0xE2, CHR 0x94, CHR 0x9C, CHR 0xE2, CHR 0x94, CHR 0x80, CHR 0xE2, CHR 0x94, CHR 0x80]
     @ '' ''\<close>

definition vertical_bar :: string where
  \<open>vertical_bar =
     [CHR 0xE2, CHR 0x94, CHR 0x82] @ ''   ''\<close>

text \<open>
  \<^verbatim>\<open>print_ascii_tree(start_package, current_node=None, prefix="", is_last=True)\<close>,
  returning the printed lines. The recursion follows the stored graph, which can hold
  a cycle, and then never ends (Python raises \<^verbatim>\<open>RecursionError\<close> when its stack is
  full): the first argument bounds the depth of the recursion, and \<open>None\<close> is the run
  that exceeds it. \<open>print_children\<close> is the \<^verbatim>\<open>for i, (dep, version) in enumerate(...)\<close>
  loop, with \<open>i\<close> and the whole list for \<^verbatim>\<open>i == len(dependencies) - 1\<close>.
  The source computes \<^verbatim>\<open>version_info\<close> and passes it to nothing; so does the model.
\<close>

fun print_ascii_tree ::
    "nat \<Rightarrow> graph \<Rightarrow> string \<Rightarrow> string option \<Rightarrow> string \<Rightarrow> bool \<Rightarrow> string list \<Rightarrow>
     string list option"
  and print_children ::
    "nat \<Rightarrow> graph \<Rightarrow> string \<Rightarrow> string \<Rightarrow> (string \<times> string) list \<Rightarrow> int \<Rightarrow>
     (string \<times> string) list \<Rightarrow> string list \<Rightarrow> string list option"
where
  "print_ascii_tree 0 g start_package current_node prefix is_last out = None"
| "print_ascii_tree (Suc depth_left) g start_package current_node prefix is_last out =
     (let node = (case current_node of None \<Rightarrow> start_package | Some c \<Rightarrow> c);
          out1 = (case current_node of
                    None \<Rightarrow> out @ [tree_banner @ start_package, replicate 50 (CHR ''='')]
                  | Some c \<Rightarrow> out);
          connector = (if is_last then connector_last else connector_mid);
          out2 = out1 @ [prefix @ connector @ node];
          dependencies = graph_get g node
      in if dependencies = [] then Some out2
         else print_children depth_left g start_package
                (prefix @ (if is_last then ''    '' else vertical_bar))
                dependencies 0 dependencies out2)"
| "print_children depth_left g start_package new_prefix dependencies i [] out = Some out"
| "print_children depth_left g start_package new_prefix dependencies i ((dep, version) # rest) out =
     (let is_last_child = (i = int (length dependencies) - 1);
          version_info = (if version \<noteq> ''*'' then '' ('' @ version @ '')'' else [])
      in case print_ascii_tree depth_left g start_package (Some dep) new_prefix is_last_child out of
           None \<Rightarrow> None
         | Some out' \<Rightarrow>
             print_children depth_left g start_package new_prefix dependencies (i + 1) rest out')"

section \<open>The Graphviz renderer\<close>

text \<open>
  \<^verbatim>\<open>generate_graphviz_dot(start_package)\<close>. The three comment lines of the header are
  the Russian for "dependency graph for package", "analysis depth" and "packages in
  total"; \<open>dot_edges_comment\<close> is "dependencies between packages" and
  \<open>dot_cycles_comment\<close> "cyclic dependencies". \<open>all_nodes\<close> enumerates
  \<^verbatim>\<open>self.all_packages\<close> in Python's iteration order.
\<close>

definition dot_graph_comment :: string where
  \<open>dot_graph_comment =
     ''    // '' @ [CHR 0xD0, CHR 0x93, CHR 0xD1, CHR 0x80, CHR 0xD0, CHR 0xB0, CHR 0xD1,
     CHR 0x84, CHR 0x20, CHR 0xD0, CHR 0xB7, CHR 0xD0, CHR 0xB0, CHR 0xD0, CHR 0xB2, CHR 0xD0,
     CHR 0xB8, CHR 0xD1, CHR 0x81, CHR 0xD0, CHR 0xB8, CHR 0xD0, CHR 0xBC, CHR 0xD0, CHR 0xBE,
     CHR 0xD1, CHR 0x81, CHR 0xD1, CHR 0x82, CHR 0xD0, CHR 0xB5, CHR 0xD0, CHR 0xB9, CHR 0x20,
     CHR 0xD0, CHR 0xB4, CHR 0xD0, CHR 0xBB, CHR 0xD1, CHR 0x8F, CHR 0x20, CHR 0xD0, CHR 0xBF,
     CHR 0xD0, CHR 0xB0, CHR 0xD0, CHR 0xBA, CHR 0xD0, CHR 0xB5, CHR 0xD1, CHR 0x82, CHR 0xD0,
     CHR 0xB0, CHR 0x20, CHR 0x22]\<close>

definition dot_depth_comment :: string where
  \<open>dot_depth_comment =
     ''    // '' @ [CHR 0xD0, CHR 0x93, CHR 0xD0, CHR 0xBB, CHR 0xD1, CHR 0x83, CHR 0xD0,
     CHR 0xB1, CHR 0xD0, CHR 0xB8, CHR 0xD0, CHR 0xBD, CHR 0xD0, CHR 0xB0, CHR 0x20, CHR 0xD0,
     CHR 0xB0, CHR 0xD0, CHR 0xBD, CHR 0xD0, CHR 0xB0, CHR 0xD0, CHR 0xBB, CHR 0xD0, CHR 0xB8,
     CHR 0xD0, CHR 0xB7, CHR 0xD0, CHR 0xB0] @ '': ''\<close>

definition dot_total_comment :: string where
  \<open>dot_total_comment =
     ''    // '' @ [CHR 0xD0, CHR 0x92, CHR 0xD1, CHR 0x81, CHR 0xD0, CHR 0xB5, CHR 0xD0,
     CHR 0xB3, CHR 0xD0, CHR 0xBE, CHR 0x20, CHR 0xD0, CHR 0xBF, CHR 0xD0, CHR 0xB0, CHR 0xD0,
     CHR 0xBA, CHR 0xD0, CHR 0xB5, CHR 0xD1, CHR 0x82, CHR 0xD0, CHR 0xBE, CHR 0xD0, CHR 0xB2] @
     '': ''\<close>

definition dot_edges_comment :: string where
  \<open>dot_edges_comment =
     ''    // '' @ [CHR 0xD0, CHR 0x97, CHR 0xD0, CHR 0xB0, CHR 0xD0, CHR 0xB2, CHR 0xD0,
     CHR 0xB8, CHR 0xD1, CHR 0x81, CHR 0xD0, CHR 0xB8, CHR 0xD0, CHR 0xBC, CHR 0xD0, CHR 0xBE,
     CHR 0xD1, CHR 0x81, CHR 0xD1, CHR 0x82, CHR 0xD0, CHR 0xB8, CHR 0x20, CHR 0xD0, CHR 0xBC,
     CHR 0xD0, CHR 0xB5, CHR 0xD0, CHR 0xB6, CHR 0xD0, CHR 0xB4, CHR 0xD1, CHR 0x83, CHR 0x20,
     CHR 0xD0, CHR 0xBF, CHR 0xD0, CHR 0xB0, CHR 0xD0, CHR 0xBA, CHR 0xD0, CHR 0xB5, CHR 0xD1,
     CHR 0x82, CHR 0xD0, CHR 0xB0, CHR 0xD0, CHR 0xBC, CHR 0xD0, CHR 0xB8]\<close>

definition dot_cycles_comment :: string where
  \<open>dot_cycles_comment =
     ''    // '' @ [CHR 0xD0, CHR 0xA6, CHR 0xD0, CHR 0xB8, CHR 0xD0, CHR 0xBA, CHR 0xD0,
     CHR 0xBB, CHR 0xD0, CHR 0xB8, CHR 0xD1, CHR 0x87, CHR 0xD0, CHR 0xB5, CHR 0xD1, CHR 0x81,
     CHR 0xD0, CHR 0xBA, CHR 0xD0, CHR 0xB8, CHR 0xD0, CHR 0xB5, CHR 0x20, CHR 0xD0, CHR 0xB7,
     CHR 0xD0, CHR 0xB0, CHR 0xD0, CHR 0xB2, CHR 0xD0, CHR 0xB8, CHR 0xD1, CHR 0x81, CHR 0xD0,
     CHR 0xB8, CHR 0xD0, CHR 0xBC, CHR 0xD0, CHR 0xBE, CHR 0xD1, CHR 0x81, CHR 0xD1, CHR 0x82,
     CHR 0xD0, CHR 0xB8]\<close>

definition dot_header :: "int \<Rightarrow> analyzer \<Rightarrow> string \<Rightarrow> string list" where
  \<open>dot_header max_depth s start_package =
     [''digraph DependencyGraph {'',
      ''    rankdir=TB;'',
      ''    node [shape=box, style=filled, fillcolor=lightblue];'',
      ''    edge [color=darkgreen];'',
      [],
      dot_graph_comment @ start_package @ ''"'',
      dot_depth_comment @ str_int max_depth,
      dot_total_comment @ str_int (int (card (all_packages s))),
      []]\<close>

definition start_declaration :: "string \<Rightarrow> string" where
  \<open>start_declaration start_package =
     ''    "'' @ start_package @ ''" [fillcolor=orange, style="filled,bold"];''\<close>

definition node_declaration :: "string \<Rightarrow> string" where
  \<open>node_declaration package = ''    "'' @ package @ ''";''\<close>

definition edge_declaration :: "string \<Rightarrow> string \<times> string \<Rightarrow> string" where
  \<open>edge_declaration source e =
     ''    "'' @ source @ ''" -> "'' @ fst e @ ''" [label="'' @ snd e @ ''"];''\<close>

definition other_nodes :: "string list \<Rightarrow> string \<Rightarrow> string list" where
  "other_nodes all_nodes start_package = filter (\<lambda>package. package \<noteq> start_package) all_nodes"

definition dot_footer :: "analyzer \<Rightarrow> string list" where
  \<open>dot_footer s =
     [[], dot_edges_comment] @
     concat (map (\<lambda>(source, dependencies). map (edge_declaration source) dependencies)
               (dependency_graph s)) @
     (if cycle_detected s then [[], dot_cycles_comment, ''    edge [color=red, style=bold];'']
      else []) @
     [''}'']\<close>

definition dot_lines :: "string list \<Rightarrow> int \<Rightarrow> analyzer \<Rightarrow> string \<Rightarrow> string list" where
  "dot_lines all_nodes max_depth s start_package =
     dot_header max_depth s start_package @
     [start_declaration start_package] @
     map node_declaration (other_nodes all_nodes start_package) @
     dot_footer s"

definition generate_graphviz_dot :: "string list \<Rightarrow> int \<Rightarrow> analyzer \<Rightarrow> string \<Rightarrow> string" where
  "generate_graphviz_dot all_nodes max_depth s start_package =
     join [CHR 0x0A] (dot_lines all_nodes max_depth s start_package)"

section \<open>Packages of a graph\<close>

text \<open>
  The targets and the sources of the recorded edges, and the packages that appear as
  the source or the target of some edge of a stored graph (a key whose list is empty
  is the source of no edge).
\<close>

definition rec_targets :: "(string list \<times> string \<times> string \<times> string) list \<Rightarrow> string set" where
  "rec_targets rs = (\<lambda>(cp, p, d, v). d) ` set rs"

definition rec_sources :: "(string list \<times> string \<times> string \<times> string) list \<Rightarrow> string set" where
  "rec_sources rs = (\<lambda>(cp, p, d, v). p) ` set rs"

definition edge_sources :: "graph \<Rightarrow> string set" where
  "edge_sources g = fst ` set (filter (\<lambda>(k, deps). deps \<noteq> []) g)"

definition graph_nodes :: "graph \<Rightarrow> string set" where
  "graph_nodes g = edge_sources g \<union> targets g"

text \<open>
  For the resolver: \<open>in_edges g U v\<close> counts the stored edges into \<open>v\<close> whose source
  is not in \<open>U\<close> (an edge stored twice counts twice); \<open>edge g u v\<close> says that the
  entry of \<open>u\<close> holds an edge to \<open>v\<close>; \<open>preds_first g out\<close> says that every
  element of \<open>out\<close> comes after all sources of its incoming edges.
\<close>

definition in_edges :: "graph \<Rightarrow> string set \<Rightarrow> string \<Rightarrow> nat" where
  "in_edges g U v =
     sum_list (map (\<lambda>(k, deps). if k \<in> U then 0 else count_list (map fst deps) v) g)"

definition edge :: "graph \<Rightarrow> string \<Rightarrow> string \<Rightarrow> bool" where
  "edge g u v = (v \<in> fst ` set (graph_get g u))"

definition preds_first :: "graph \<Rightarrow> string list \<Rightarrow> bool" where
  "preds_first g out = (\<forall>i < length out. \<forall>u. edge g u (out ! i) \<longrightarrow> u \<in> set (take i out))"

text \<open>The graph with every version constraint \<open>v\<close> replaced by \<open>f v\<close>.\<close>

definition with_versions :: "(string \<Rightarrow> string) \<Rightarrow> graph \<Rightarrow> graph" where
  "with_versions f g = map (\<lambda>(k, deps). (k, map (\<lambda>(d, v). (d, f v)) deps)) g"

section \<open>Fixtures of the scenarios\<close>

text \<open>
  The fixture files of the scenarios, as \<^verbatim>\<open>load_test_repository\<close> returns them:
  \<^verbatim>\<open>{"A": ["B", "C"], "B": [], "C": ["B"]}\<close> and \<^verbatim>\<open>{"A": ["B"], "B": ["A"]}\<close>.
\<close>

definition diamond_repo :: source where
  "diamond_repo = TestRepo (Inr [''A'' \<mapsto> [''B'', ''C''], ''B'' \<mapsto> [], ''C'' \<mapsto> [''B'']])"

definition cyclic_repo :: source where
  "cyclic_repo = TestRepo (Inr [''A'' \<mapsto> [''B''], ''B'' \<mapsto> [''A'']])"

text \<open>
  A registry that knows \<open>A\<close> (two dependencies with version constraints) and \<open>C\<close>
  (none) and fails for every other package.
\<close>

definition failing_registry :: source where
  "failing_registry = Registry (\<lambda>package_name.
     if package_name = ''A'' then Inr [(''B'', ''^1.0.0''), (''C'', ''~2.1.0'')]
     else if package_name = ''C'' then Inr []
     else Inl ''HTTP 404'')"

text \<open>
  A fixture in which \<open>B\<close> is reached on two branches, at depth 1 below \<open>A\<close> and at
  depth 2 below \<open>C\<close>: \<^verbatim>\<open>{"A": ["B", "C"], "B": ["D"], "C": ["B"], "D": ["E"]}\<close>.
\<close>

definition shared_repo :: source where
  "shared_repo = TestRepo (Inr [''A'' \<mapsto> [''B'', ''C''], ''B'' \<mapsto> [''D''], ''C'' \<mapsto> [''B''],
     ''D'' \<mapsto> [''E'']])"

section \<open>Properties of the builder\<close>

text \<open>
  The defining equations of the two recursive functions are unfolded by hand, one call
  at a time.
\<close>

declare build_dependency_graph_bfs.simps [simp del]
declare recorded_edges.simps [simp del]

lemma graph_get_append:
  "graph_get (graph_append g k e) k' = (if k' = k then graph_get g k @ [e] else graph_get g k')"
  by (induction g) (auto simp: graph_get_def)

lemma targets_simps:
  "targets [] = {}"
  "targets ((k, deps) # g) = fst ` set deps \<union> targets g"
  by (simp_all add: targets_def)

lemma targets_append: "targets (graph_append g k e) = insert (fst e) (targets g)"
proof (induction g)
  case Nil
  then show ?case by (simp add: targets_simps)
next
  case (Cons x g)
  obtain k' deps where x: "x = (k', deps)" by (cases x)
  show ?case using Cons.IH unfolding x by (cases "k' = k") (auto simp: targets_simps)
qed

lemma keys_append: "fst ` set (graph_append g k e) = insert k (fst ` set g)"
proof (induction g)
  case Nil
  then show ?case by simp
next
  case (Cons x g)
  obtain k' deps where x: "x = (k', deps)" by (cases x)
  show ?case using Cons.IH unfolding x by (cases "k' = k") auto
qed

lemma distinct_keys_append:
  "distinct (map fst (graph_append g k e)) = distinct (map fst g)"
proof (induction g)
  case Nil
  then show ?case by simp
next
  case (Cons x g)
  obtain k' deps where x: "x = (k', deps)" by (cases x)
  show ?case
  proof (cases "k' = k")
    case True
    with x show ?thesis by simp
  next
    case False
    have "k' \<in> fst ` set (graph_append g k e) \<longleftrightarrow> k' \<in> fst ` set g"
      unfolding keys_append using False by simp
    with False x Cons.IH show ?thesis by simp
  qed
qed

lemma edges_of_simps:
  "edges_of k [] = []"
  "edges_of k ((cp, p, d, v) # rs) = (if p = k then (d, v) # edges_of k rs else edges_of k rs)"
  "edges_of k (rs @ rs') = edges_of k rs @ edges_of k rs'"
  by (simp_all add: edges_of_def)

lemma builder_graph_get_both:
  "graph_get (dependency_graph (build_dependency_graph_bfs src md p d path s)) k =
     graph_get (dependency_graph s) k @ edges_of k (recorded_edges src md p d path)"
  "graph_get (dependency_graph (expand_dependencies src md p d cp deps s)) k =
     graph_get (dependency_graph s) k @ edges_of k (recorded_by_loop src md p d cp deps)"
proof (induction src md p d path s and src md p d cp deps s
    rule: build_dependency_graph_bfs_expand_dependencies.induct)
  case (1 src max_depth start_package current_depth path s)
  then show ?case
    by (auto simp: build_dependency_graph_bfs.simps[of src max_depth start_package current_depth path s]
        recorded_edges.simps[of src max_depth start_package current_depth path] edges_of_simps
        split: sum.splits)
next
  case (2 src max_depth start_package current_depth current_path s)
  then show ?case by (simp add: edges_of_simps)
next
  case (3 src max_depth start_package current_depth current_path dep_package version rest s)
  then show ?case by (simp add: edges_of_simps graph_get_append)
qed

lemma recorded_by_loop_mem:
  "(d, v) \<in> set deps \<Longrightarrow> (cp, p, d, v) \<in> set (recorded_by_loop src md p depth cp deps)"
  by (induction deps) auto

lemma edges_of_mem: "(cp, k, d, v) \<in> set rs \<Longrightarrow> (d, v) \<in> set (edges_of k rs)"
  by (force simp: edges_of_def)

lemma cycle_detected_mono:
  "cycle_detected s \<Longrightarrow> cycle_detected (build_dependency_graph_bfs src md p d path s)"
  "cycle_detected s \<Longrightarrow> cycle_detected (expand_dependencies src md p d cp deps s)"
proof (induction src md p d path s and src md p d cp deps s
    rule: build_dependency_graph_bfs_expand_dependencies.induct)
  case (1 src max_depth start_package current_depth path s)
  then show ?case
    by (auto simp: build_dependency_graph_bfs.simps[of src max_depth start_package current_depth path s]
        split: sum.splits)
next
  case (2 src max_depth start_package current_depth current_path s)
  then show ?case by simp
next
  case (3 src max_depth start_package current_depth current_path dep_package version rest s)
  then show ?case by simp
qed

lemma expand_detects_cycle:
  "(d, v) \<in> set deps \<Longrightarrow> d \<in> set cp \<Longrightarrow> depth + 1 < md \<Longrightarrow>
   cycle_detected (expand_dependencies src md p depth cp deps s)"
proof (induction deps arbitrary: s)
  case Nil
  then show ?case by simp
next
  case (Cons e deps)
  obtain d' v' where e: "e = (d', v')" by (cases e)
  show ?case
  proof (cases "e = (d, v)")
    case True
    then show ?thesis using Cons.prems
      by (simp add: build_dependency_graph_bfs.simps[of src md d "depth + 1" cp] cycle_detected_mono)
  next
    case False
    with Cons.prems(1) have "(d, v) \<in> set deps" by simp
    from Cons.IH[OF this Cons.prems(2,3)] show ?thesis unfolding e by simp
  qed
qed

lemma recorded_paths:
  "(cp', p', dep, v) \<in> set (recorded_edges src md pk d path) \<Longrightarrow>
     \<exists>rest. cp' = path @ pk # rest \<and> last cp' = p' \<and> int (length rest) + 1 \<le> md - d"
  "(cp', p', dep, v) \<in> set (recorded_by_loop src md p d cp deps) \<Longrightarrow>
     (cp' = cp \<and> p' = p) \<or>
     (\<exists>x rest. cp' = cp @ x # rest \<and> last cp' = p' \<and> int (length rest) + 1 \<le> md - (d + 1))"
proof (induction src md pk d path and src md p d cp deps rule: recorded_edges_recorded_by_loop.induct)
  case (1 src max_depth start_package current_depth path)
  from "1.prems" have g: "\<not> max_depth \<le> current_depth" "start_package \<notin> set path"
    by (auto simp: recorded_edges.simps[of src max_depth start_package current_depth path]
        split: if_splits)
  from "1.prems" g obtain b where b: "get_direct_dependencies src start_package = Inr b"
    and m: "(cp', p', dep, v) \<in> set (recorded_by_loop src max_depth start_package current_depth
        (path @ [start_package]) b)"
    by (cases "get_direct_dependencies src start_package")
       (auto simp: recorded_edges.simps[of src max_depth start_package current_depth path])
  from "1.IH"[OF g b m] show ?case
  proof
    assume "cp' = path @ [start_package] \<and> p' = start_package"
    with g show ?thesis by simp
  next
    assume "\<exists>x rest. cp' = (path @ [start_package]) @ x # rest \<and> last cp' = p' \<and>
        int (length rest) + 1 \<le> max_depth - (current_depth + 1)"
    then obtain x rest where "cp' = path @ start_package # x # rest" "last cp' = p'"
      "int (length rest) + 1 \<le> max_depth - (current_depth + 1)" by auto
    then show ?thesis by (intro exI[of _ "x # rest"]) simp
  qed
next
  case (2 src max_depth start_package current_depth current_path)
  then show ?case by simp
next
  case (3 src max_depth start_package current_depth current_path dep_package version rest)
  from "3.prems" consider
      "(cp', p', dep, v) = (current_path, start_package, dep_package, version)"
    | "(cp', p', dep, v) \<in> set (recorded_edges src max_depth dep_package (current_depth + 1) current_path)"
    | "(cp', p', dep, v) \<in> set (recorded_by_loop src max_depth start_package current_depth current_path rest)"
    by auto
  then show ?case
  proof cases
    case 1
    then show ?thesis by simp
  next
    case 2
    from "3.IH"(1)[OF this] show ?thesis by auto
  next
    case 3
    from "3.IH"(2)[OF this] show ?thesis .
  qed
qed

lemma recorded_from_root:
  assumes "(cp, p, dep, v) \<in> set (recorded_edges src md root 0 [])"
  shows "hd cp = root \<and> last cp = p \<and> int (length cp) \<le> md"
  using recorded_paths(1)[OF assms] by auto

lemma fold_graph_append:
  "fold (\<lambda>e g. graph_append g p e) deps [(p, es)] = [(p, es @ deps)]"
  by (induction deps arbitrary: es) auto

lemma expand_at_last_level:
  "dependency_graph (expand_dependencies src (d + 1) p d cp deps s) =
     fold (\<lambda>e g. graph_append g p e) deps (dependency_graph s)"
  by (induction deps arbitrary: s)
     (auto simp: build_dependency_graph_bfs.simps[of src "d + 1" _  "d + 1"])

lemma depth_one_graph:
  "dependency_graph (build_dependency_graph_bfs src 1 root 0 [] PackageAnalyzer_init) =
     (case get_direct_dependencies src root of
        Inl e \<Rightarrow> []
      | Inr dependencies \<Rightarrow> if dependencies = [] then [] else [(root, dependencies)])"
proof (cases "get_direct_dependencies src root")
  case (Inl e)
  then show ?thesis
    by (simp add: build_dependency_graph_bfs.simps[of src 1 root 0] PackageAnalyzer_init_def)
next
  case (Inr deps)
  have "fold (\<lambda>e g. graph_append g root e) deps [] = (if deps = [] then [] else [(root, deps)])"
  proof (cases deps)
    case Nil
    then show ?thesis by simp
  next
    case (Cons e es)
    then show ?thesis using fold_graph_append[of root es "[e]"] by simp
  qed
  with Inr show ?thesis
    using expand_at_last_level[of src 0 root "[root]" deps]
    by (simp add: build_dependency_graph_bfs.simps[of src 1 root 0] PackageAnalyzer_init_def)
qed

lemma rec_simps:
  "rec_targets [] = {}" "rec_sources [] = {}"
  "rec_targets ((cp, p, d, v) # rs) = insert d (rec_targets rs)"
  "rec_sources ((cp, p, d, v) # rs) = insert p (rec_sources rs)"
  "rec_targets (rs @ rs') = rec_targets rs \<union> rec_targets rs'"
  "rec_sources (rs @ rs') = rec_sources rs \<union> rec_sources rs'"
  by (simp_all add: rec_targets_def rec_sources_def image_Un)

lemma edge_sources_simps:
  "edge_sources [] = {}"
  "edge_sources ((k, deps) # g) = (if deps = [] then edge_sources g else insert k (edge_sources g))"
  by (simp_all add: edge_sources_def)

lemma edge_sources_append: "edge_sources (graph_append g k e) = insert k (edge_sources g)"
proof (induction g)
  case Nil
  then show ?case by (simp add: edge_sources_simps)
next
  case (Cons x g)
  obtain k' deps where x: "x = (k', deps)" by (cases x)
  show ?case using Cons.IH unfolding x by (cases "k' = k") (auto simp: edge_sources_simps)
qed

lemma builder_sets:
  "all_packages (build_dependency_graph_bfs src md p d path s) =
     all_packages s \<union> (if md \<le> d \<or> p \<in> set path then {} else {p}) \<union>
     rec_targets (recorded_edges src md p d path) \<and>
   targets (dependency_graph (build_dependency_graph_bfs src md p d path s)) =
     targets (dependency_graph s) \<union> rec_targets (recorded_edges src md p d path) \<and>
   edge_sources (dependency_graph (build_dependency_graph_bfs src md p d path s)) =
     edge_sources (dependency_graph s) \<union> rec_sources (recorded_edges src md p d path)"
  "all_packages (expand_dependencies src md p d cp deps s) =
     all_packages s \<union> rec_targets (recorded_by_loop src md p d cp deps) \<and>
   targets (dependency_graph (expand_dependencies src md p d cp deps s)) =
     targets (dependency_graph s) \<union> rec_targets (recorded_by_loop src md p d cp deps) \<and>
   edge_sources (dependency_graph (expand_dependencies src md p d cp deps s)) =
     edge_sources (dependency_graph s) \<union> rec_sources (recorded_by_loop src md p d cp deps)"
proof (induction src md p d path s and src md p d cp deps s
    rule: build_dependency_graph_bfs_expand_dependencies.induct)
  case (1 src max_depth start_package current_depth path s)
  show ?case
  proof (cases "max_depth \<le> current_depth \<or> start_package \<in> set path")
    case True
    then show ?thesis
      by (auto simp: build_dependency_graph_bfs.simps[of src max_depth start_package current_depth path s]
          recorded_edges.simps[of src max_depth start_package current_depth path] rec_simps)
  next
    case False
    show ?thesis
    proof (cases "get_direct_dependencies src start_package")
      case (Inl e)
      with False show ?thesis
        by (simp add: build_dependency_graph_bfs.simps[of src max_depth start_package current_depth path s]
            recorded_edges.simps[of src max_depth start_package current_depth path] rec_simps)
    next
      case (Inr b)
      from False have g: "\<not> max_depth \<le> current_depth" "start_package \<notin> set path" by auto
      from "1.IH"[OF g Inr] False Inr show ?thesis
        by (simp add: build_dependency_graph_bfs.simps[of src max_depth start_package current_depth path s]
            recorded_edges.simps[of src max_depth start_package current_depth path] rec_simps)
    qed
  qed
next
  case (2 src max_depth start_package current_depth current_path s)
  then show ?case by (simp add: rec_simps)
next
  case (3 src max_depth start_package current_depth current_path dep_package version rest s)
  then show ?case
    by (simp add: rec_simps targets_append edge_sources_append) blast
qed

lemma recorded_sources:
  "rec_sources (recorded_edges src md pk d path) \<subseteq>
     insert pk (rec_targets (recorded_edges src md pk d path))"
  "rec_sources (recorded_by_loop src md p d cp deps) \<subseteq>
     insert p (rec_targets (recorded_by_loop src md p d cp deps))"
proof (induction src md pk d path and src md p d cp deps rule: recorded_edges_recorded_by_loop.induct)
  case (1 src max_depth start_package current_depth path)
  then show ?case
    by (cases "get_direct_dependencies src start_package")
       (auto simp: recorded_edges.simps[of src max_depth start_package current_depth path] rec_simps)
next
  case (2 src max_depth start_package current_depth current_path)
  then show ?case by (simp add: rec_simps)
next
  case (3 src max_depth start_package current_depth current_path dep_package version rest)
  then show ?case by (auto simp: rec_simps)
qed

lemma builder_known_packages:
  assumes "0 < max_depth"
  shows "all_packages (build_dependency_graph_bfs src max_depth root 0 [] PackageAnalyzer_init) =
     insert root (graph_nodes (dependency_graph
       (build_dependency_graph_bfs src max_depth root 0 [] PackageAnalyzer_init)))"
proof -
  let ?rs = "recorded_edges src max_depth root 0 []"
  let ?s = "build_dependency_graph_bfs src max_depth root 0 [] PackageAnalyzer_init"
  have a: "all_packages ?s = insert root (rec_targets ?rs)"
    using assms by (simp add: builder_sets PackageAnalyzer_init_def)
  have t: "targets (dependency_graph ?s) = rec_targets ?rs"
    by (simp add: builder_sets PackageAnalyzer_init_def targets_simps)
  have e: "edge_sources (dependency_graph ?s) = rec_sources ?rs"
    by (simp add: builder_sets PackageAnalyzer_init_def edge_sources_simps)
  have "rec_sources ?rs \<subseteq> insert root (rec_targets ?rs)" by (rule recorded_sources)
  then show ?thesis unfolding a graph_nodes_def t e by blast
qed

lemma builder_targets_known:
  assumes "targets (dependency_graph s) \<subseteq> all_packages s"
  shows "targets (dependency_graph (build_dependency_graph_bfs src md p d path s)) \<subseteq>
     all_packages (build_dependency_graph_bfs src md p d path s)"
  using assms by (auto simp: builder_sets)


lemma builder_distinct_keys:
  "distinct (map fst (dependency_graph s)) \<Longrightarrow>
     distinct (map fst (dependency_graph (build_dependency_graph_bfs src md p d path s)))"
  "distinct (map fst (dependency_graph s)) \<Longrightarrow>
     distinct (map fst (dependency_graph (expand_dependencies src md p d cp deps s)))"
proof (induction src md p d path s and src md p d cp deps s
    rule: build_dependency_graph_bfs_expand_dependencies.induct)
  case (1 src max_depth start_package current_depth path s)
  then show ?case
    by (cases "get_direct_dependencies src start_package")
       (auto simp: build_dependency_graph_bfs.simps[of src max_depth start_package current_depth path s])
next
  case (2 src max_depth start_package current_depth current_path s)
  then show ?case by simp
next
  case (3 src max_depth start_package current_depth current_path dep_package version rest s)
  then show ?case by (simp add: distinct_keys_append)
qed

section \<open>Properties of the resolver\<close>

lemma zero_missing_eq:
  "zero_missing ns m = (\<lambda>n. if n \<in> set ns \<and> m n = None then Some 0 else m n)"
  by (induction ns arbitrary: m) (auto simp: fun_eq_iff)

lemma filter_only:
  "distinct ns \<Longrightarrow> a \<in> set ns \<Longrightarrow> \<forall>x\<in>set ns. P x = (x = a) \<Longrightarrow> filter P ns = [a]"
proof (induction ns)
  case Nil
  then show ?case by simp
next
  case (Cons n ns)
  show ?case
  proof (cases "n = a")
    case True
    with Cons.prems have "\<forall>x\<in>set ns. \<not> P x" by auto
    then have "filter P ns = []" by (simp add: filter_empty_conv)
    with True Cons.prems show ?thesis by simp
  next
    case False
    with Cons show ?thesis by auto
  qed
qed

lemma diamond_build:
  "build_dependency_graph_bfs diamond_repo 3 ''A'' 0 [] PackageAnalyzer_init =
     \<lparr>dependency_graph = [(''A'', [(''B'', ''*''), (''C'', ''*'')]), (''C'', [(''B'', ''*'')])],
      cycle_detected = False, load_order = [], all_packages = {''A'', ''B'', ''C''},
      printed = []\<rparr>"
  by (simp add: build_dependency_graph_bfs.simps get_direct_dependencies_def
      PackageAnalyzer_init_def diamond_repo_def insert_commute)


lemma relax_invariant:
  assumes "relax es (deg, q) = (deg', q')"
    and "fst ` set es \<subseteq> A"
    and "distinct (done @ q)"
    and "\<forall>n\<in>set (done @ q). dd_get deg n \<le> 0"
    and "set (done @ q) \<subseteq> A"
  shows "distinct (done @ q') \<and> (\<forall>n\<in>set (done @ q'). dd_get deg' n \<le> 0) \<and> set (done @ q') \<subseteq> A"
  using assms
proof (induction es arbitrary: deg q)
  case Nil
  then show ?case by simp
next
  case (Cons e es)
  obtain nb v where e: "e = (nb, v)" by (cases e)
  let ?d = "dd_add deg nb (- 1)"
  let ?q = "if dd_get ?d nb = 0 then q @ [nb] else q"
  have val: "dd_get ?d n = (if n = nb then dd_get deg nb - 1 else dd_get deg n)" for n
    by (simp add: dd_get_def dd_add_def)
  have rest: "relax es (?d, ?q) = (deg', q')" using Cons.prems(1) e by simp
  have nbA: "nb \<in> A" using Cons.prems(2) e by simp
  have fresh: "nb \<notin> set (done @ q)" if "dd_get ?d nb = 0"
  proof
    assume "nb \<in> set (done @ q)"
    with Cons.prems(4) have "dd_get deg nb \<le> 0" by blast
    with that val[of nb] show False by simp
  qed
  have d: "distinct (done @ ?q)" using Cons.prems(3) fresh by auto
  have le: "\<forall>n\<in>set (done @ ?q). dd_get ?d n \<le> 0"
  proof
    fix n assume n: "n \<in> set (done @ ?q)"
    show "dd_get ?d n \<le> 0"
    proof (cases "n \<in> set (done @ q)")
      case True
      with Cons.prems(4) have "dd_get deg n \<le> 0" by blast
      then show ?thesis using val[of n] by auto
    next
      case False
      with n have "n = nb" "dd_get ?d nb = 0" by (auto split: if_splits)
      then show ?thesis by simp
    qed
  qed
  have sub: "set (done @ ?q) \<subseteq> A" using Cons.prems(5) nbA by auto
  from Cons.IH[OF rest _ d le sub] Cons.prems(2) show ?case by simp
qed

lemma kahn_loop_invariant:
  assumes "kahn_loop g deg q out = (deg', out')"
    and "targets g \<subseteq> A"
    and "distinct (out @ q)"
    and "\<forall>n\<in>set (out @ q). dd_get deg n \<le> 0"
    and "set (out @ q) \<subseteq> A"
  shows "distinct out' \<and> set out' \<subseteq> A"
  using assms
proof (induction g deg q out rule: kahn_loop.induct)
  case (1 g deg order)
  then show ?case by simp
next
  case (2 g deg current queue order)
  obtain d1 q1 where r: "relax (graph_get g current) (deg, queue) = (d1, q1)"
    by (cases "relax (graph_get g current) (deg, queue)")
  have es: "fst ` set (graph_get g current) \<subseteq> A"
    using graph_get_targets[of g current] "2.prems"(2) by blast
  have inv: "distinct ((order @ [current]) @ q1) \<and>
      (\<forall>n\<in>set ((order @ [current]) @ q1). dd_get d1 n \<le> 0) \<and>
      set ((order @ [current]) @ q1) \<subseteq> A"
    using "2.prems"(3,4,5) by (intro relax_invariant[OF r es]) auto
  have k: "kahn_loop g d1 q1 (order @ [current]) = (deg', out')"
    using "2.prems"(1) r by simp
  from "2.IH"[OF r[symmetric] k "2.prems"(2)] inv show ?case by blast
qed

lemma load_order_distinct_general:
  assumes "targets (dependency_graph s) \<subseteq> all_packages s"
    and "set all_nodes = all_packages s" and "distinct all_nodes"
  shows "distinct (load_order (calculate_load_order all_nodes s start_package)) \<and>
         set (load_order (calculate_load_order all_nodes s start_package)) \<subseteq> all_packages s \<and>
         length (load_order (calculate_load_order all_nodes s start_package)) \<le> card (all_packages s)"
proof -
  let ?deg = "initial_in_degree all_nodes (dependency_graph s)"
  let ?q = "filter (\<lambda>node. dd_get ?deg node = 0) all_nodes"
  let ?out = "load_order (calculate_load_order all_nodes s start_package)"
  obtain deg' where k: "kahn_loop (dependency_graph s) ?deg ?q [] = (deg', ?out)"
    by (cases "kahn_loop (dependency_graph s) ?deg ?q []")
       (simp add: calculate_load_order_def Let_def)
  have "distinct ?out \<and> set ?out \<subseteq> all_packages s"
    using assms by (intro kahn_loop_invariant[OF k]) auto
  moreover have "finite (all_packages s)" using assms(2)[symmetric] by simp
  ultimately show ?thesis
    by (metis card_mono distinct_card)
qed

text \<open>
  The order is topological where it is defined: the in-degree of a node is at every
  turn of the loop the number of stored edges into it from nodes not yet in the order,
  so a node enters the queue when all sources of its incoming edges are in the order.
\<close>

lemma in_edges_simps:
  "in_edges [] U v = 0"
  "in_edges ((k, deps) # g) U v =
     (if k \<in> U then 0 else count_list (map fst deps) v) + in_edges g U v"
  by (simp_all add: in_edges_def)

lemma dd_get_add: "dd_get (dd_add m k d) n = (if n = k then dd_get m k + d else dd_get m n)"
  by (simp add: dd_get_def dd_add_def)

lemma count_deps_get:
  "dd_get (count_deps deps m) v = dd_get m v + int (count_list (map fst deps) v)"
  by (induction deps m rule: count_deps.induct) (auto simp: dd_get_add)

lemma count_items_get:
  "dd_get (count_items g m) v = dd_get m v + int (in_edges g {} v)"
  by (induction g m rule: count_items.induct) (auto simp: count_deps_get in_edges_simps)

lemma zero_missing_get: "dd_get (zero_missing ns m) v = dd_get m v"
  by (simp add: zero_missing_eq dd_get_def)

lemma initial_in_degree_get:
  "dd_get (initial_in_degree ns g) v = int (in_edges g {} v)"
proof -
  have "dd_get Map.empty v = 0" by (simp add: dd_get_def)
  then show ?thesis by (simp add: initial_in_degree_def zero_missing_get count_items_get)
qed

lemma in_edges_insert_absent:
  "k \<notin> fst ` set g \<Longrightarrow> in_edges g (insert k U) v = in_edges g U v"
  by (induction g) (auto simp: in_edges_simps)

lemma graph_get_simps:
  "graph_get [] k = []"
  "graph_get ((k', deps) # g) k = (if k' = k then deps else graph_get g k)"
  by (simp_all add: graph_get_def)

lemma in_edges_split:
  "distinct (map fst g) \<Longrightarrow> current \<notin> U \<Longrightarrow>
   in_edges g U v =
     in_edges g (insert current U) v + count_list (map fst (graph_get g current)) v"
proof (induction g)
  case Nil
  then show ?case by (simp add: in_edges_simps graph_get_simps)
next
  case (Cons x g)
  obtain k deps where x: "x = (k, deps)" by (cases x)
  show ?case
  proof (cases "k = current")
    case True
    with Cons.prems x have "current \<notin> fst ` set g" by auto
    then have "in_edges g (insert current U) v = in_edges g U v"
      by (rule in_edges_insert_absent)
    with True x Cons.prems(2) show ?thesis by (simp add: in_edges_simps graph_get_simps)
  next
    case False
    with Cons x show ?thesis by (simp add: in_edges_simps graph_get_simps)
  qed
qed

lemma in_edges_zero:
  assumes "in_edges g U v = 0" and "edge g u v"
  shows "u \<in> U"
proof (rule ccontr)
  assume u: "u \<notin> U"
  from assms(2) obtain deps where m: "map_of g u = Some deps" and v: "v \<in> fst ` set deps"
    by (cases "map_of g u") (auto simp: edge_def graph_get_def)
  from m have "(u, deps) \<in> set g" by (rule map_of_SomeD)
  with assms(1) have "(case (u, deps) of (k, deps) \<Rightarrow>
      if k \<in> U then 0 else count_list (map fst deps) v) = 0"
    unfolding in_edges_def sum_list_eq_0_iff by auto
  with u have "count_list (map fst deps) v = 0" by simp
  with v show False by (simp add: count_list_0_iff)
qed


lemma relax_counts:
  assumes "relax es (deg, q) = (deg', q')"
    and "\<forall>v. dd_get deg v = int (c v) + int (count_list (map fst es) v)"
    and "distinct (done @ q)"
    and "\<forall>v\<in>set (done @ q). dd_get deg v = 0"
    and "\<forall>v\<in>A. dd_get deg v = 0 \<longrightarrow> v \<in> set (done @ q)"
  shows "(\<forall>v. dd_get deg' v = int (c v)) \<and> distinct (done @ q') \<and>
         (\<forall>v\<in>set (done @ q'). dd_get deg' v = 0) \<and>
         (\<forall>v\<in>A. dd_get deg' v = 0 \<longrightarrow> v \<in> set (done @ q'))"
  using assms
proof (induction es arbitrary: deg q)
  case Nil
  then show ?case by simp
next
  case (Cons e es)
  obtain nb ver where e: "e = (nb, ver)" by (cases e)
  let ?d = "dd_add deg nb (- 1)"
  let ?q = "if dd_get ?d nb = 0 then q @ [nb] else q"
  have rest: "relax es (?d, ?q) = (deg', q')" using Cons.prems(1) e by simp
  have old: "dd_get deg nb = int (c nb) + int (count_list (map fst es) nb) + 1"
    using Cons.prems(2) e by simp
  have fresh: "nb \<notin> set (done @ q)"
  proof
    assume "nb \<in> set (done @ q)"
    with Cons.prems(4) have "dd_get deg nb = 0" by blast
    with old show False by simp
  qed
  have i1: "\<forall>v. dd_get ?d v = int (c v) + int (count_list (map fst es) v)"
    using Cons.prems(2) e by (simp add: dd_get_add)
  have i2: "distinct (done @ ?q)" using Cons.prems(3) fresh by auto
  have i3: "\<forall>v\<in>set (done @ ?q). dd_get ?d v = 0"
  proof
    fix v assume v: "v \<in> set (done @ ?q)"
    show "dd_get ?d v = 0"
    proof (cases "v = nb")
      case True
      with v fresh show ?thesis by (auto split: if_splits)
    next
      case False
      with v have "v \<in> set (done @ q)" by (auto split: if_splits)
      with Cons.prems(4) False show ?thesis by (simp add: dd_get_add)
    qed
  qed
  have i4: "\<forall>v\<in>A. dd_get ?d v = 0 \<longrightarrow> v \<in> set (done @ ?q)"
  proof (intro ballI impI)
    fix v assume v: "v \<in> A" "dd_get ?d v = 0"
    show "v \<in> set (done @ ?q)"
    proof (cases "v = nb")
      case True
      with v show ?thesis by simp
    next
      case False
      with v have "dd_get deg v = 0" by (simp add: dd_get_add)
      with Cons.prems(5) v(1) have "v \<in> set (done @ q)" by blast
      then show ?thesis by auto
    qed
  qed
  from Cons.IH[OF rest i1 i2 i3 i4] show ?case .
qed

lemma preds_first_snoc:
  assumes "preds_first g out" and "\<forall>u. edge g u x \<longrightarrow> u \<in> set out"
  shows "preds_first g (out @ [x])"
  unfolding preds_first_def
proof (intro allI impI)
  fix i u assume i: "i < length (out @ [x])" and e: "edge g u ((out @ [x]) ! i)"
  show "u \<in> set (take i (out @ [x]))"
  proof (cases "i < length out")
    case True
    with assms(1) e show ?thesis by (auto simp: preds_first_def nth_append)
  next
    case False
    with i have "i = length out" by simp
    with assms(2) e show ?thesis by simp
  qed
qed

lemma kahn_loop_counts:
  assumes "kahn_loop g deg q out = (deg', out')"
    and "distinct (map fst g)"
    and "\<forall>v. dd_get deg v = int (in_edges g (set out) v)"
    and "distinct (out @ q)"
    and "\<forall>v\<in>set (out @ q). dd_get deg v = 0"
    and "\<forall>v\<in>A. dd_get deg v = 0 \<longrightarrow> v \<in> set (out @ q)"
    and "preds_first g out"
  shows "preds_first g out' \<and> distinct out' \<and>
         (\<forall>v. dd_get deg' v = int (in_edges g (set out') v)) \<and>
         (\<forall>v\<in>set out'. dd_get deg' v = 0) \<and>
         (\<forall>v\<in>A. dd_get deg' v = 0 \<longrightarrow> v \<in> set out')"
  using assms
proof (induction g deg q out rule: kahn_loop.induct)
  case (1 g deg order)
  then show ?case by simp
next
  case (2 g deg current queue order)
  obtain d1 q1 where r: "relax (graph_get g current) (deg, queue) = (d1, q1)"
    by (cases "relax (graph_get g current) (deg, queue)")
  have k: "kahn_loop g d1 q1 (order @ [current]) = (deg', out')"
    using "2.prems"(1) r by simp
  have cur: "current \<notin> set order" using "2.prems"(4) by simp
  have zero: "in_edges g (set order) current = 0"
    using "2.prems"(3,5) by (metis in_set_conv_decomp of_nat_eq_0_iff)
  have i1: "\<forall>v. dd_get deg v = int (in_edges g (insert current (set order)) v) +
      int (count_list (map fst (graph_get g current)) v)"
    using "2.prems"(3) in_edges_split[OF "2.prems"(2) cur] by simp
  have i2: "distinct ((order @ [current]) @ queue)" using "2.prems"(4) by simp
  have i3: "\<forall>v\<in>set ((order @ [current]) @ queue). dd_get deg v = 0"
    using "2.prems"(5) by simp
  have i4: "\<forall>v\<in>A. dd_get deg v = 0 \<longrightarrow> v \<in> set ((order @ [current]) @ queue)"
    using "2.prems"(6) by simp
  note rc = relax_counts[OF r i1 i2 i3 i4]
  have a: "\<forall>v. dd_get d1 v = int (in_edges g (set (order @ [current])) v)"
    using rc by simp
  have b: "distinct ((order @ [current]) @ q1)" using rc by blast
  have c: "\<forall>v\<in>set ((order @ [current]) @ q1). dd_get d1 v = 0" using rc by blast
  have d: "\<forall>v\<in>A. dd_get d1 v = 0 \<longrightarrow> v \<in> set ((order @ [current]) @ q1)"
    using rc by blast
  have e: "preds_first g (order @ [current])"
    using "2.prems"(7) in_edges_zero[OF zero] by (intro preds_first_snoc) auto
  from "2.IH"[OF r[symmetric] k "2.prems"(2) a b c d e] show ?case .
qed


lemma kahn_result:
  assumes "distinct (map fst g)" and "distinct all_nodes"
    and "kahn_loop g (initial_in_degree all_nodes g)
           (filter (\<lambda>node. dd_get (initial_in_degree all_nodes g) node = 0) all_nodes) [] =
         (deg', out')"
  shows "preds_first g out' \<and> distinct out' \<and>
         (\<forall>v. dd_get deg' v = int (in_edges g (set out') v)) \<and>
         (\<forall>v\<in>set all_nodes. (v \<in> set out') = (dd_get deg' v = 0))"
proof -
  let ?deg = "initial_in_degree all_nodes g"
  let ?q = "filter (\<lambda>node. dd_get ?deg node = 0) all_nodes"
  have a: "\<forall>v. dd_get ?deg v = int (in_edges g (set []) v)"
    by (simp add: initial_in_degree_get)
  have b: "distinct ([] @ ?q)" using assms(2) by simp
  have c: "\<forall>v\<in>set ([] @ ?q). dd_get ?deg v = 0" by simp
  have d: "\<forall>v\<in>set all_nodes. dd_get ?deg v = 0 \<longrightarrow> v \<in> set ([] @ ?q)" by simp
  have e: "preds_first g []" by (simp add: preds_first_def)
  from kahn_loop_counts[OF assms(3,1) a b c d e] show ?thesis by blast
qed

lemma load_order_topological:
  assumes "distinct (map fst (dependency_graph s))"
    and "set all_nodes = all_packages s" and "distinct all_nodes"
  shows "(\<forall>u v. edge (dependency_graph s) u v \<and>
             v \<in> set (load_order (calculate_load_order all_nodes s start_package)) \<longrightarrow>
           (\<exists>i j. i < j \<and> j < length (load_order (calculate_load_order all_nodes s start_package)) \<and>
              load_order (calculate_load_order all_nodes s start_package) ! i = u \<and>
              load_order (calculate_load_order all_nodes s start_package) ! j = v)) \<and>
         (\<forall>v\<in>all_packages s.
            (v \<in> set (load_order (calculate_load_order all_nodes s start_package))) =
            (dd_get (residual_in_degree all_nodes s) v = 0)) \<and>
         (\<forall>v. dd_get (residual_in_degree all_nodes s) v =
            int (in_edges (dependency_graph s)
                  (set (load_order (calculate_load_order all_nodes s start_package))) v))"
proof -
  let ?g = "dependency_graph s"
  let ?out = "load_order (calculate_load_order all_nodes s start_package)"
  let ?res = "residual_in_degree all_nodes s"
  have k: "kahn_loop ?g (initial_in_degree all_nodes ?g)
      (filter (\<lambda>node. dd_get (initial_in_degree all_nodes ?g) node = 0) all_nodes) [] =
      (?res, ?out)"
    by (simp add: calculate_load_order_def residual_in_degree_def Let_def)
  note r = kahn_result[OF assms(1,3) k]
  have topo: "\<exists>i j. i < j \<and> j < length ?out \<and> ?out ! i = u \<and> ?out ! j = v"
    if e: "edge ?g u v" and v: "v \<in> set ?out" for u v
  proof -
    from v obtain j where j: "j < length ?out" "?out ! j = v"
      by (auto simp: in_set_conv_nth)
    with r e have "u \<in> set (take j ?out)" unfolding preds_first_def by blast
    then obtain i where "i < length (take j ?out)" "take j ?out ! i = u"
      by (auto simp: in_set_conv_nth)
    with j have "i < j" "?out ! i = u" by auto
    with j show ?thesis by blast
  qed
  show ?thesis using r topo assms(2) by blast
qed


section \<open>Properties of the Graphviz renderer\<close>

lemma node_declaration_inj: "node_declaration p = node_declaration q \<Longrightarrow> p = q"
  by (simp add: node_declaration_def)

lemma node_declaration_not_start: "node_declaration p \<noteq> start_declaration q"
proof
  assume "node_declaration p = start_declaration q"
  then have "rev (node_declaration p) = rev (start_declaration q)" by simp
  then show False by (simp add: node_declaration_def start_declaration_def)
qed

section \<open>Properties of the tree renderer\<close>

text \<open>The printed tree does not depend on the version constraints of the graph.\<close>

lemma graph_get_with_versions:
  "graph_get (with_versions f g) k = map (\<lambda>(d, v). (d, f v)) (graph_get g k)"
  by (induction g) (auto simp: graph_get_def with_versions_def)

lemma tree_ignores_versions:
  "print_ascii_tree n (with_versions f g) start_package current_node prefix is_last out =
     print_ascii_tree n g start_package current_node prefix is_last out"
  "print_children n (with_versions f g) start_package new_prefix
       (map (\<lambda>(d, v). (d, f v)) dependencies) i (map (\<lambda>(d, v). (d, f v)) rest) out =
     print_children n g start_package new_prefix dependencies i rest out"
proof (induction n g start_package current_node prefix is_last out
    and n g start_package new_prefix dependencies i rest out
    rule: print_ascii_tree_print_children.induct)
  case (1 g start_package current_node prefix is_last out)
  then show ?case by simp
next
  case (2 depth_left g start_package current_node prefix is_last out)
  then show ?case by (simp add: graph_get_with_versions Let_def)
next
  case (3 depth_left g start_package new_prefix dependencies i out)
  then show ?case by simp
next
  case (4 depth_left g start_package new_prefix dependencies i dep version rest out)
  then show ?case by (simp add: Let_def split: option.splits)
qed


section \<open>The claims\<close>

subsection \<open>C1: the edge that closes a cycle\<close>

text \<open>
  C1, as amended. The loop appends the edge to the graph before it makes the recursive
  call that finds the target on the path, and nothing removes an edge afterwards. So
  the edge closing a cycle is stored like every other edge: whenever a package is
  expanded (below the depth bound, not on the path) and one of its dependencies is on
  the traversal path, that edge is in the package's entry of the built graph, and the
  flag is set when the recursive call is below the depth bound. The call that detects
  the cycle records nothing itself (C4), which is what ends the expansion. For the
  fixture \<open>{A: [B], B: [A]}\<close> with \<open>max_depth = 5\<close> and start package \<open>A\<close> the built
  graph holds the two edges \<open>A \<rightarrow> B\<close> and \<open>B \<rightarrow> A\<close>, the flag is set and the cycle
  \<open>A -> B -> A\<close> is reported.
\<close>

theorem closing_edge_recorded:
  "(current_depth < max_depth \<and> start_package \<notin> set path \<and>
    get_direct_dependencies src start_package = Inr dependencies \<and>
    (dep_package, version) \<in> set dependencies \<and> dep_package \<in> set (path @ [start_package]) \<longrightarrow>
      (dep_package, version) \<in> set (graph_get (dependency_graph
          (build_dependency_graph_bfs src max_depth start_package current_depth path s)) start_package) \<and>
      (current_depth + 1 < max_depth \<longrightarrow>
         cycle_detected (build_dependency_graph_bfs src max_depth start_package current_depth path s))) \<and>
   build_dependency_graph_bfs cyclic_repo 5 ''A'' 0 [] PackageAnalyzer_init =
     \<lparr>dependency_graph = [(''A'', [(''B'', ''*'')]), (''B'', [(''A'', ''*'')])],
      cycle_detected = True, load_order = [], all_packages = {''A'', ''B''},
      printed = [cycle_warning @ ''A -> B -> A'']\<rparr>"
proof (intro conjI impI)
  assume a: "current_depth < max_depth \<and> start_package \<notin> set path \<and>
    get_direct_dependencies src start_package = Inr dependencies \<and>
    (dep_package, version) \<in> set dependencies \<and> dep_package \<in> set (path @ [start_package])"
  have "(path @ [start_package], start_package, dep_package, version)
      \<in> set (recorded_edges src max_depth start_package current_depth path)"
    using a by (simp add: recorded_edges.simps[of src max_depth start_package current_depth path]
        recorded_by_loop_mem)
  then show "(dep_package, version) \<in> set (graph_get (dependency_graph
          (build_dependency_graph_bfs src max_depth start_package current_depth path s)) start_package)"
    by (simp add: builder_graph_get_both edges_of_mem)
  assume "current_depth + 1 < max_depth"
  then show "cycle_detected (build_dependency_graph_bfs src max_depth start_package current_depth path s)"
    using a expand_detects_cycle[of dep_package version dependencies "path @ [start_package]"
        current_depth max_depth src start_package]
    by (simp add: build_dependency_graph_bfs.simps[of src max_depth start_package current_depth path s])
next
  show "build_dependency_graph_bfs cyclic_repo 5 ''A'' 0 [] PackageAnalyzer_init =
     \<lparr>dependency_graph = [(''A'', [(''B'', ''*'')]), (''B'', [(''A'', ''*'')])],
      cycle_detected = True, load_order = [], all_packages = {''A'', ''B''},
      printed = [cycle_warning @ ''A -> B -> A'']\<rparr>"
    by (simp add: build_dependency_graph_bfs.simps get_direct_dependencies_def
        PackageAnalyzer_init_def cyclic_repo_def insert_commute)
qed

theorem closing_edge_recorded_witness:
  "(1::int) < 5 \<and> ''B'' \<notin> set [''A''] \<and>
   get_direct_dependencies cyclic_repo ''B'' = Inr [(''A'', ''*'')] \<and>
   (''A'', ''*'') \<in> set [(''A'', ''*'')] \<and> ''A'' \<in> set ([''A''] @ [''B'']) \<and>
   (''A'', ''*'') \<in> set (graph_get (dependency_graph
       (build_dependency_graph_bfs cyclic_repo 5 ''B'' 1 [''A''] PackageAnalyzer_init)) ''B'') \<and>
   cycle_detected (build_dependency_graph_bfs cyclic_repo 5 ''B'' 1 [''A''] PackageAnalyzer_init)"
proof -
  have h: "(1::int) < 5 \<and> ''B'' \<notin> set [''A''] \<and>
     get_direct_dependencies cyclic_repo ''B'' = Inr [(''A'', ''*'')] \<and>
     (''A'', ''*'') \<in> set [(''A'', ''*'')] \<and> ''A'' \<in> set ([''A''] @ [''B''])"
    by (simp add: get_direct_dependencies_def cyclic_repo_def)
  have "(1::int) + 1 < 5" by simp
  with h closing_edge_recorded[of 1 5 "''B''" "[''A'']" cyclic_repo "[(''A'', ''*'')]" "''A''" "''*''"
      PackageAnalyzer_init]
  show ?thesis by blast
qed

text \<open>
  The claim as stated fails on its own scenario: the built graph is not the single
  edge \<open>A \<rightarrow> B\<close>; the entry of \<open>B\<close> holds the edge back to \<open>A\<close>.
\<close>

theorem closing_edge_stored_counterexample:
  "dependency_graph (build_dependency_graph_bfs cyclic_repo 5 ''A'' 0 [] PackageAnalyzer_init) \<noteq>
     [(''A'', [(''B'', ''*'')])] \<and>
   (''A'', ''*'') \<in> set (graph_get (dependency_graph
       (build_dependency_graph_bfs cyclic_repo 5 ''A'' 0 [] PackageAnalyzer_init)) ''B'')"
  by (simp add: build_dependency_graph_bfs.simps get_direct_dependencies_def
      PackageAnalyzer_init_def cyclic_repo_def graph_get_def)

subsection \<open>C2: residual cycles\<close>

text \<open>
  C2 does not hold for the code. The graph built from the fixture \<open>{A: [B], B: [A]}\<close>
  holds the cycle \<open>A \<rightarrow> B \<rightarrow> A\<close>. On it \<open>calculate_load_order\<close> returns the empty
  order and changes nothing else of the state: nothing is printed, although \<open>A\<close> and
  \<open>B\<close> both keep in-degree 1 when the queue is empty. (The fourth snapshot of the
  same method prints the nodes with positive in-degree at this point.) The rest of the
  claim holds, by \<open>load_order_topological\<close>: in the returned order every node comes
  after the sources of all its incoming edges, and the known packages missing from it
  are exactly those whose in-degree is not 0 when the queue is empty.
\<close>

theorem residual_cycle_not_reported:
  "build_dependency_graph_bfs cyclic_repo 5 ''A'' 0 [] PackageAnalyzer_init =
     \<lparr>dependency_graph = [(''A'', [(''B'', ''*'')]), (''B'', [(''A'', ''*'')])],
      cycle_detected = True, load_order = [], all_packages = {''A'', ''B''},
      printed = [cycle_warning @ ''A -> B -> A'']\<rparr> \<and>
   calculate_load_order [''A'', ''B'']
       (build_dependency_graph_bfs cyclic_repo 5 ''A'' 0 [] PackageAnalyzer_init) ''A'' =
     build_dependency_graph_bfs cyclic_repo 5 ''A'' 0 [] PackageAnalyzer_init \<and>
   calculate_load_order [''B'', ''A'']
       (build_dependency_graph_bfs cyclic_repo 5 ''A'' 0 [] PackageAnalyzer_init) ''A'' =
     build_dependency_graph_bfs cyclic_repo 5 ''A'' 0 [] PackageAnalyzer_init \<and>
   dd_get (residual_in_degree [''A'', ''B'']
       (build_dependency_graph_bfs cyclic_repo 5 ''A'' 0 [] PackageAnalyzer_init)) ''A'' = 1 \<and>
   dd_get (residual_in_degree [''A'', ''B'']
       (build_dependency_graph_bfs cyclic_repo 5 ''A'' 0 [] PackageAnalyzer_init)) ''B'' = 1"
  by (simp add: build_dependency_graph_bfs.simps get_direct_dependencies_def
      PackageAnalyzer_init_def cyclic_repo_def insert_commute calculate_load_order_def
      residual_in_degree_def initial_in_degree_def dd_get_def dd_add_def)

subsection \<open>C3: version constraints in the tree\<close>

text \<open>
  C3 does not hold for the code. \<open>print_ascii_tree\<close> computes \<open>version_info\<close> for each
  child and then calls itself without it; the line of a node is the prefix, the
  connector and the name. For the graph \<open>{A: [(B, "^1.0.0")]}\<close> the tree is the banner,
  the rule, the line of \<open>A\<close> and the line of \<open>B\<close> with no constraint after the name:
  the same lines as for the wildcard. In general the printed lines are the same
  whatever the constraints are (\<open>tree_ignores_versions\<close>), so the wildcard is
  omitted, as the claim says, and so is every other constraint.
\<close>

theorem tree_label_drops_version:
  "print_ascii_tree 3 [(''A'', [(''B'', ''^1.0.0'')])] ''A'' None [] True [] =
     Some [tree_banner @ ''A'', replicate 50 (CHR ''=''), connector_last @ ''A'',
           ''    '' @ connector_last @ ''B''] \<and>
   print_ascii_tree 3 [(''A'', [(''B'', ''^1.0.0'')])] ''A'' None [] True [] =
     print_ascii_tree 3 [(''A'', [(''B'', ''*'')])] ''A'' None [] True []"
  by (simp add: numeral_3_eq_3 graph_get_def Let_def)

subsection \<open>C4: the path guard\<close>

text \<open>
  C4, as amended. The claim is stated for every call on a package that is already on
  the traversal path. The depth guard stands before the path guard, so a call with
  \<open>current_depth \<ge> max_depth\<close> returns before the path is looked at: the flag stays as
  it was and nothing is printed. For
  every call below the depth bound on a package that is on the path, the call sets
  \<open>cycle_detected\<close>, prints the warning with the path closed by the package, and leaves
  the graph, the known packages and the load order as they were; the source is not
  asked and no recursive call is made.
\<close>

theorem cycle_guard_below_depth:
  assumes "current_depth < max_depth" and "start_package \<in> set path"
  shows "build_dependency_graph_bfs src max_depth start_package current_depth path s =
           s\<lparr>printed := printed s @ [cycle_warning @ join '' -> '' (path @ [start_package])],
             cycle_detected := True\<rparr>"
  using assms by (simp add: build_dependency_graph_bfs.simps)

theorem cycle_guard_below_depth_witness:
  "(2::int) < 5 \<and> ''A'' \<in> set [''A'', ''B''] \<and>
   build_dependency_graph_bfs cyclic_repo 5 ''A'' 2 [''A'', ''B''] PackageAnalyzer_init =
     PackageAnalyzer_init\<lparr>printed := [cycle_warning @ ''A -> B -> A''], cycle_detected := True\<rparr>"
  using cycle_guard_below_depth[of 2 5 "''A''" "[''A'', ''B'']" cyclic_repo PackageAnalyzer_init]
  by (simp add: PackageAnalyzer_init_def)

text \<open>
  The claim as stated fails at the depth bound: with \<open>max_depth = 2\<close> the call on
  \<open>A\<close> at depth 2 with path \<open>[A, B]\<close> changes nothing, and the whole run from \<open>A\<close>
  over the fixture \<open>{A: [B], B: [A]}\<close> ends with the flag unset.
\<close>

theorem cycle_guard_at_depth_bound_counterexample:
  "''A'' \<in> set [''A'', ''B''] \<and>
   \<not> cycle_detected
       (build_dependency_graph_bfs cyclic_repo 2 ''A'' 2 [''A'', ''B''] PackageAnalyzer_init) \<and>
   printed
       (build_dependency_graph_bfs cyclic_repo 2 ''A'' 2 [''A'', ''B''] PackageAnalyzer_init) = [] \<and>
   \<not> cycle_detected (build_dependency_graph_bfs cyclic_repo 2 ''A'' 0 [] PackageAnalyzer_init)"
  by (simp add: build_dependency_graph_bfs.simps get_direct_dependencies_def
      PackageAnalyzer_init_def cyclic_repo_def)

subsection \<open>C5: the depth guard\<close>

text \<open>
  C5. (1) A call with \<open>current_depth \<ge> max_depth\<close> returns the state it was given: the
  source is not asked and nothing is recorded. (2) For a run from the root call (depth
  0, empty path), the entry of every package in the built graph is its entry before the
  run followed by the edges of \<open>recorded_edges\<close> for that package, and every recorded
  edge was appended by a call whose traversal path starts at the root, ends at the
  source of the edge and has at most \<open>max_depth\<close> packages: the expansion path from
  the root to the target of the edge has at most \<open>max_depth\<close> edges. (3) With
  \<open>max_depth = 1\<close> the graph built from the empty state holds the direct edges of the
  start package and nothing else (no entry at all when the start package has no
  dependencies or its lookup fails).
\<close>

theorem depth_bound:
  "(max_depth \<le> current_depth \<longrightarrow>
      build_dependency_graph_bfs src max_depth start_package current_depth path s = s) \<and>
   (\<forall>k. graph_get (dependency_graph (build_dependency_graph_bfs src max_depth root 0 [] s)) k =
      graph_get (dependency_graph s) k @ edges_of k (recorded_edges src max_depth root 0 [])) \<and>
   (\<forall>(cp, p, dep, v) \<in> set (recorded_edges src max_depth root 0 []).
      hd cp = root \<and> last cp = p \<and> int (length cp) \<le> max_depth) \<and>
   dependency_graph (build_dependency_graph_bfs src 1 root 0 [] PackageAnalyzer_init) =
     (case get_direct_dependencies src root of
        Inl e \<Rightarrow> []
      | Inr dependencies \<Rightarrow> if dependencies = [] then [] else [(root, dependencies)])"
  using recorded_from_root[of _ _ _ _ src max_depth root]
  by (auto simp: build_dependency_graph_bfs.simps[of src max_depth start_package current_depth]
      builder_graph_get_both depth_one_graph)

theorem depth_bound_witness:
  "(3::int) \<le> 3 \<and>
   build_dependency_graph_bfs diamond_repo 3 ''B'' 3 [''A'', ''C''] PackageAnalyzer_init =
     PackageAnalyzer_init \<and>
   ([''A'', ''C''], ''C'', ''B'', ''*'') \<in> set (recorded_edges diamond_repo 3 ''A'' 0 []) \<and>
   int (length [''A'', ''C'']) \<le> 3 \<and>
   dependency_graph (build_dependency_graph_bfs diamond_repo 1 ''A'' 0 [] PackageAnalyzer_init) =
     [(''A'', [(''B'', ''*''), (''C'', ''*'')])]"
proof -
  have m: "([''A'', ''C''], ''C'', ''B'', ''*'') \<in> set (recorded_edges diamond_repo 3 ''A'' 0 [])"
    by (simp add: recorded_edges.simps get_direct_dependencies_def diamond_repo_def)
  have d: "get_direct_dependencies diamond_repo ''A'' = Inr [(''B'', ''*''), (''C'', ''*'')]"
    by (simp add: get_direct_dependencies_def diamond_repo_def)
  note t = depth_bound[of 3 3 diamond_repo "''B''" "[''A'', ''C'']" PackageAnalyzer_init "''A''"]
  from t have "build_dependency_graph_bfs diamond_repo 3 ''B'' 3 [''A'', ''C''] PackageAnalyzer_init =
     PackageAnalyzer_init" by simp
  moreover from t m have "int (length [''A'', ''C'']) \<le> 3" by blast
  moreover from depth_bound[of 1 1 diamond_repo "''B''" "[]" PackageAnalyzer_init "''A''"] d
  have "dependency_graph (build_dependency_graph_bfs diamond_repo 1 ''A'' 0 [] PackageAnalyzer_init) =
     [(''A'', [(''B'', ''*''), (''C'', ''*'')])]" by simp
  ultimately show ?thesis using m by simp
qed

text \<open>
  The bound is on the traversal path of the call that records an edge. The graph is
  keyed by package name, so the edges recorded for one package on different branches
  share one entry, and a chain of stored edges can be longer than \<open>max_depth\<close>: with
  \<open>max_depth = 3\<close> the fixture \<open>shared_repo\<close> stores \<open>A \<rightarrow> C\<close>, \<open>C \<rightarrow> B\<close>,
  \<open>B \<rightarrow> D\<close> and \<open>D \<rightarrow> E\<close>, the last one recorded on the branch \<open>A, B, D\<close>.
\<close>

lemma stored_chain_beyond_bound:
  "dependency_graph (build_dependency_graph_bfs shared_repo 3 ''A'' 0 [] PackageAnalyzer_init) =
     [(''A'', [(''B'', ''*''), (''C'', ''*'')]), (''B'', [(''D'', ''*''), (''D'', ''*'')]),
      (''D'', [(''E'', ''*'')]), (''C'', [(''B'', ''*'')])]"
  by (simp add: build_dependency_graph_bfs.simps get_direct_dependencies_def
      PackageAnalyzer_init_def shared_repo_def)

subsection \<open>C6: the diamond scenario\<close>

text \<open>
  C6. For the fixture \<open>{A: [B, C], B: [], C: [B]}\<close>, \<open>max_depth = 3\<close> and start
  package \<open>A\<close>, the built graph holds exactly the edges \<open>A \<rightarrow> B\<close>, \<open>A \<rightarrow> C\<close> and
  \<open>C \<rightarrow> B\<close> (each with the wildcard), and \<open>calculate_load_order\<close> returns
  \<open>[A, C, B]\<close>, in whatever order Python iterates the set of known packages.
\<close>

theorem diamond_scenario:
  assumes "set all_nodes =
      all_packages (build_dependency_graph_bfs diamond_repo 3 ''A'' 0 [] PackageAnalyzer_init)"
    and "distinct all_nodes"
  shows "dependency_graph (build_dependency_graph_bfs diamond_repo 3 ''A'' 0 [] PackageAnalyzer_init) =
           [(''A'', [(''B'', ''*''), (''C'', ''*'')]), (''C'', [(''B'', ''*'')])] \<and>
         load_order (calculate_load_order all_nodes
           (build_dependency_graph_bfs diamond_repo 3 ''A'' 0 [] PackageAnalyzer_init) ''A'') =
           [''A'', ''C'', ''B'']"
proof -
  let ?g = "[(''A'', [(''B'', ''*''), (''C'', ''*'')]), (''C'', [(''B'', ''*'')])]"
  have ns: "set all_nodes = {''A'', ''B'', ''C''}" using assms(1) by (simp add: diamond_build)
  let ?deg = "initial_in_degree all_nodes ?g"
  have deg: "dd_get ?deg n = (if n = ''B'' then 2 else if n = ''C'' then 1 else 0)" for n
    by (simp add: initial_in_degree_def zero_missing_eq dd_get_def dd_add_def ns)
  have q: "filter (\<lambda>node. dd_get ?deg node = 0) all_nodes = [''A'']"
    by (rule filter_only[OF assms(2)]) (auto simp: ns deg)
  have "snd (kahn_loop ?g ?deg [''A''] []) = [''A'', ''C'', ''B'']"
    by (simp add: graph_get_def initial_in_degree_def zero_missing_eq dd_get_def dd_add_def ns)
  then show ?thesis
    by (simp add: diamond_build calculate_load_order_def q)
qed

theorem diamond_scenario_witness:
  "set [''B'', ''C'', ''A''] =
     all_packages (build_dependency_graph_bfs diamond_repo 3 ''A'' 0 [] PackageAnalyzer_init) \<and>
   distinct [''B'', ''C'', ''A''] \<and>
   load_order (calculate_load_order [''B'', ''C'', ''A'']
     (build_dependency_graph_bfs diamond_repo 3 ''A'' 0 [] PackageAnalyzer_init) ''A'') =
     [''A'', ''C'', ''B'']"
proof -
  have h1: "set [''B'', ''C'', ''A''] =
     all_packages (build_dependency_graph_bfs diamond_repo 3 ''A'' 0 [] PackageAnalyzer_init)"
    by (auto simp: diamond_build)
  have h2: "distinct [''B'', ''C'', ''A'']" by simp
  from diamond_scenario[OF h1 h2] h1 h2 show ?thesis by blast
qed

subsection \<open>C7: a failure of the source stays in its branch\<close>

text \<open>
  C7. When the lookup of a package fails while it is expanded (the call is below the
  depth bound and the package is not on the path), the call returns normally: it has
  added the package to the known packages and printed the warning with the package name
  and the message of the failure, and the graph is as it was, so the branch grows no
  further. The loop of the parent then goes on with the remaining dependencies, from a
  state that differs from the one before only by the edge to the failing package, that
  package among the known ones, and the printed warning. The builder returns a state in
  every case, so there is no failure left to reach an ancestor.
\<close>

theorem source_failure_is_local:
  assumes "get_direct_dependencies src package = Inl e"
    and "current_depth < max_depth"
    and "package \<notin> set path"
  shows "build_dependency_graph_bfs src max_depth package current_depth path s =
           s\<lparr>all_packages := insert package (all_packages s),
             printed := printed s @ [error_warning @ package @ '': '' @ e]\<rparr> \<and>
         expand_dependencies src max_depth parent (current_depth - 1) path
             ((package, version) # rest) s =
           expand_dependencies src max_depth parent (current_depth - 1) path rest
             (s\<lparr>dependency_graph :=
                  graph_append (dependency_graph s) parent (package, version),
                all_packages := insert package (all_packages s),
                printed := printed s @ [error_warning @ package @ '': '' @ e]\<rparr>)"
  using assms
  by (simp add: build_dependency_graph_bfs.simps[of src max_depth package current_depth])

theorem source_failure_is_local_witness:
  "get_direct_dependencies failing_registry ''B'' = Inl ''HTTP 404'' \<and> (1::int) < 3 \<and>
   ''B'' \<notin> set [''A''] \<and>
   build_dependency_graph_bfs failing_registry 3 ''A'' 0 [] PackageAnalyzer_init =
     \<lparr>dependency_graph = [(''A'', [(''B'', ''^1.0.0''), (''C'', ''~2.1.0'')])],
      cycle_detected = False, load_order = [], all_packages = {''A'', ''B'', ''C''},
      printed = [error_warning @ ''B: HTTP 404'']\<rparr>"
proof -
  have h1: "get_direct_dependencies failing_registry ''B'' = Inl ''HTTP 404''"
    by (simp add: get_direct_dependencies_def failing_registry_def)
  have h2: "(1::int) < 3" by simp
  have h3: "''B'' \<notin> set [''A'']" by simp
  have a: "get_direct_dependencies failing_registry ''A'' = Inr [(''B'', ''^1.0.0''), (''C'', ''~2.1.0'')]"
    by (simp add: get_direct_dependencies_def failing_registry_def)
  have c: "get_direct_dependencies failing_registry ''C'' = Inr []"
    by (simp add: get_direct_dependencies_def failing_registry_def)
  note step = source_failure_is_local[OF h1 h2 h3, where parent = "''A''"
      and version = "''^1.0.0''" and rest = "[(''C'', ''~2.1.0'')]"
      and s = "PackageAnalyzer_init\<lparr>all_packages := {''A''}\<rparr>", THEN conjunct2, simplified]
  have "build_dependency_graph_bfs failing_registry 3 ''A'' 0 [] PackageAnalyzer_init =
     \<lparr>dependency_graph = [(''A'', [(''B'', ''^1.0.0''), (''C'', ''~2.1.0'')])],
      cycle_detected = False, load_order = [], all_packages = {''A'', ''B'', ''C''},
      printed = [error_warning @ ''B: HTTP 404'']\<rparr>"
    apply (simp add: build_dependency_graph_bfs.simps[of failing_registry 3 "''A''" 0] a)
    apply (simp add: PackageAnalyzer_init_def)
    apply (simp add: step[unfolded PackageAnalyzer_init_def, simplified])
    apply (simp add: build_dependency_graph_bfs.simps[of failing_registry 3 "''C''"] c insert_commute)
    done
  with h1 h2 h3 show ?thesis by blast
qed

subsection \<open>C8: the resolver is idempotent\<close>

text \<open>
  C8. \<open>calculate_load_order\<close> reads the graph and the known packages and writes only
  \<open>load_order\<close>: it leaves the graph and the known packages as they were, and a second
  run on the state the first one left returns the same sequence.
\<close>

theorem load_order_idempotent:
  "load_order (calculate_load_order all_nodes (calculate_load_order all_nodes s start_package) start_package)
     = load_order (calculate_load_order all_nodes s start_package) \<and>
   dependency_graph (calculate_load_order all_nodes s start_package) = dependency_graph s \<and>
   all_packages (calculate_load_order all_nodes s start_package) = all_packages s"
  by (simp add: calculate_load_order_def Let_def)

subsection \<open>C9: node declarations of the Graphviz text\<close>

text \<open>
  C9, as amended. The renderer declares the start package, with the fill attribute,
  and then every other member of \<^verbatim>\<open>all_packages\<close>, without attributes. For the state
  a run of the builder from the start package leaves (\<open>max_depth\<close> positive), the
  declared packages are therefore the start package together with every package that
  is the source or the target of some stored edge, each declared by one line, the
  lines pairwise different, and the start package alone carries the fill attribute.
  The start package is declared also when no edge mentions it.
\<close>

theorem graphviz_node_declarations:
  assumes "0 < max_depth"
    and "s = build_dependency_graph_bfs src max_depth start_package 0 [] PackageAnalyzer_init"
    and "set all_nodes = all_packages s" and "distinct all_nodes"
  shows "dot_lines all_nodes max_depth s start_package =
           dot_header max_depth s start_package @
           start_declaration start_package #
           map node_declaration (other_nodes all_nodes start_package) @ dot_footer s \<and>
         set (start_package # other_nodes all_nodes start_package) =
           insert start_package (graph_nodes (dependency_graph s)) \<and>
         distinct (start_package # other_nodes all_nodes start_package) \<and>
         distinct (start_declaration start_package #
           map node_declaration (other_nodes all_nodes start_package))"
proof -
  have known: "all_packages s = insert start_package (graph_nodes (dependency_graph s))"
    unfolding assms(2) by (rule builder_known_packages[OF assms(1)])
  have "set (start_package # other_nodes all_nodes start_package) = insert start_package (set all_nodes)"
    by (auto simp: other_nodes_def)
  then have nodes: "set (start_package # other_nodes all_nodes start_package) =
      insert start_package (graph_nodes (dependency_graph s))"
    using assms(3) known by simp
  have d: "distinct (start_package # other_nodes all_nodes start_package)"
    using assms(4) by (simp add: other_nodes_def)
  have "distinct (map node_declaration (other_nodes all_nodes start_package))"
    using d by (simp add: distinct_map inj_on_def node_declaration_inj)
  then have lines: "distinct (start_declaration start_package #
      map node_declaration (other_nodes all_nodes start_package))"
    using node_declaration_not_start[of _ start_package] by (auto simp: image_iff) metis
  show ?thesis using nodes d lines by (simp add: dot_lines_def)
qed

theorem graphviz_node_declarations_witness:
  "(0::int) < 3 \<and>
   set [''C'', ''A'', ''B''] =
     all_packages (build_dependency_graph_bfs diamond_repo 3 ''A'' 0 [] PackageAnalyzer_init) \<and>
   distinct [''C'', ''A'', ''B''] \<and>
   dot_lines [''C'', ''A'', ''B''] 3
       (build_dependency_graph_bfs diamond_repo 3 ''A'' 0 [] PackageAnalyzer_init) ''A'' =
     dot_header 3 (build_dependency_graph_bfs diamond_repo 3 ''A'' 0 [] PackageAnalyzer_init) ''A'' @
     [start_declaration ''A'', node_declaration ''C'', node_declaration ''B''] @
     dot_footer (build_dependency_graph_bfs diamond_repo 3 ''A'' 0 [] PackageAnalyzer_init) \<and>
   insert ''A'' (graph_nodes (dependency_graph
       (build_dependency_graph_bfs diamond_repo 3 ''A'' 0 [] PackageAnalyzer_init))) =
     {''A'', ''C'', ''B''}"
proof -
  let ?s = "build_dependency_graph_bfs diamond_repo 3 ''A'' 0 [] PackageAnalyzer_init"
  have h0: "(0::int) < 3" by simp
  have h1: "set [''C'', ''A'', ''B''] = all_packages ?s" by (auto simp: diamond_build)
  have h2: "distinct [''C'', ''A'', ''B'']" by simp
  from graphviz_node_declarations[OF h0 refl h1 h2] h0 h1 h2 show ?thesis
    by (simp add: other_nodes_def)
qed

text \<open>
  The claim as stated fails for a start package without dependencies: started from
  \<open>B\<close> on the fixture \<open>{A: [B, C], B: [], C: [B]}\<close> the graph has no edge, and the
  text still declares \<open>B\<close>.
\<close>

theorem graphviz_declares_isolated_start_counterexample:
  "dependency_graph (build_dependency_graph_bfs diamond_repo 3 ''B'' 0 [] PackageAnalyzer_init) = [] \<and>
   graph_nodes (dependency_graph
     (build_dependency_graph_bfs diamond_repo 3 ''B'' 0 [] PackageAnalyzer_init)) = {} \<and>
   all_packages (build_dependency_graph_bfs diamond_repo 3 ''B'' 0 [] PackageAnalyzer_init) = {''B''} \<and>
   start_declaration ''B'' \<in> set (dot_lines [''B''] 3
     (build_dependency_graph_bfs diamond_repo 3 ''B'' 0 [] PackageAnalyzer_init) ''B'')"
  by (simp add: build_dependency_graph_bfs.simps get_direct_dependencies_def
      PackageAnalyzer_init_def diamond_repo_def graph_nodes_def edge_sources_def targets_def
      dot_lines_def)

subsection \<open>C10: the load order has no duplicates\<close>

text \<open>
  C10. In the state a run of the builder leaves (from the empty state), every edge
  target is a known package, and the sequence \<open>calculate_load_order\<close> returns for it
  has no duplicates and holds known packages only, so it is at most as long as the set
  of known packages is large; this for every order in which the set is iterated.
\<close>

theorem load_order_distinct_known:
  assumes "s = build_dependency_graph_bfs src max_depth root 0 [] PackageAnalyzer_init"
    and "set all_nodes = all_packages s" and "distinct all_nodes"
  shows "targets (dependency_graph s) \<subseteq> all_packages s \<and>
         distinct (load_order (calculate_load_order all_nodes s start_package)) \<and>
         set (load_order (calculate_load_order all_nodes s start_package)) \<subseteq> all_packages s \<and>
         length (load_order (calculate_load_order all_nodes s start_package)) \<le> card (all_packages s)"
proof -
  have "targets (dependency_graph PackageAnalyzer_init) \<subseteq> all_packages PackageAnalyzer_init"
    by (simp add: PackageAnalyzer_init_def targets_simps)
  then have t: "targets (dependency_graph s) \<subseteq> all_packages s"
    unfolding assms(1) by (rule builder_targets_known)
  with load_order_distinct_general[OF t assms(2,3)] show ?thesis by simp
qed

theorem load_order_distinct_known_witness:
  "set [''C'', ''A'', ''B''] =
     all_packages (build_dependency_graph_bfs diamond_repo 3 ''A'' 0 [] PackageAnalyzer_init) \<and>
   distinct [''C'', ''A'', ''B''] \<and>
   distinct (load_order (calculate_load_order [''C'', ''A'', ''B'']
     (build_dependency_graph_bfs diamond_repo 3 ''A'' 0 [] PackageAnalyzer_init) ''A'')) \<and>
   length (load_order (calculate_load_order [''C'', ''A'', ''B'']
     (build_dependency_graph_bfs diamond_repo 3 ''A'' 0 [] PackageAnalyzer_init) ''A'')) \<le> 3"
proof -
  let ?s = "build_dependency_graph_bfs diamond_repo 3 ''A'' 0 [] PackageAnalyzer_init"
  have h1: "set [''C'', ''A'', ''B''] = all_packages ?s" by (auto simp: diamond_build)
  have h2: "distinct [''C'', ''A'', ''B'']" by simp
  have c: "card (all_packages ?s) = 3" by (simp add: diamond_build)
  from load_order_distinct_known[OF refl h1 h2, of "''A''"] h1 h2 c show ?thesis by simp
qed


end
